theory Spec2Isabelle
  imports Main "HOL-Library.Word"
begin

unbundle bit_operations_syntax

section \<open>Bytes, slices and the library functions the sources call\<close>

type_synonym byte = "8 word"

text \<open>Go strings and byte slices are both sequences of bytes; a string literal of the
  source is written as an Isabelle string and converted.\<close>

definition bytes_of :: "string \<Rightarrow> byte list" where
  "bytes_of s = map of_char s"

text \<open>\<open>bytes.IndexByte\<close>: the index of the first occurrence, or \<open>-1\<close>.\<close>

fun IndexByte :: "byte list \<Rightarrow> byte \<Rightarrow> int" where
  "IndexByte [] c = -1"
| "IndexByte (x # xs) c =
     (if x = c then 0 else (let r = IndexByte xs c in if r < 0 then -1 else r + 1))"

text \<open>The error values of the sources and of the library functions they call, the
  error kinds the spec gives the patch interpreter, and an error of the zlib reader.\<close>

datatype error =
    errBadTreeData
  | errMalformedCommitLine
  | errNotFoundInPack
  | errInvalidPackEntryType
  | ErrSyntax
  | ErrRange
  | ErrLength
  | InvalidByteError byte
  | EOF
  | ErrUnexpectedEOF
  | ZlibError nat
  | BadDeltaHeader
  | BadDelta
  | SizeMismatch

text \<open>A function of the source either returns or panics.\<close>

datatype 'a outcome = Return 'a | Panic "byte list"

text \<open>\<open>make([]T, n)\<close> does not return for every length: above a limit of the runtime
  (\<open>maxAlloc\<close>, on 64-bit platforms \<open>2^48\<close> bytes, and less where memory is short) and for
  a negative length the run ends in a panic. The limit, in bytes, is a parameter \<open>lim\<close> of
  the functions that allocate a size they read from their input.\<close>

definition make_fails :: "nat \<Rightarrow> int \<Rightarrow> bool" where
  "make_fails lim n \<longleftrightarrow> n < 0 \<or> int lim < n"

definition makeslice_panic :: "byte list" where
  "makeslice_panic = bytes_of ''runtime error: makeslice: len out of range''"

definition maxAlloc :: nat where
  "maxAlloc = 2 ^ 48"

text \<open>\<open>strconv.ParseUint(s, base, bitSize)\<close> for an explicit base between 2 and 36 and a
  bit size between 1 and 64: digits are consumed left to right, an invalid digit is a
  syntax error, a value that leaves the range is a range error.\<close>

definition digit_val :: "byte \<Rightarrow> nat option" where
  "digit_val c =
     (if 0x30 \<le> c \<and> c \<le> 0x39 then Some (unat c - 0x30)
      else if 0x61 \<le> (c OR 0x20) \<and> (c OR 0x20) \<le> 0x7A then Some (unat (c OR 0x20) - 0x61 + 10)
      else None)"

fun ParseUint_loop :: "nat \<Rightarrow> nat \<Rightarrow> nat \<Rightarrow> byte list \<Rightarrow> error + nat" where
  "ParseUint_loop base maxVal n [] = Inr n"
| "ParseUint_loop base maxVal n (c # cs) =
     (case digit_val c of
        None \<Rightarrow> Inl ErrSyntax
      | Some d \<Rightarrow>
          if d \<ge> base then Inl ErrSyntax
          else if n \<ge> (2 ^ 64 - 1) div base + 1 then Inl ErrRange
          else if n * base + d \<ge> 2 ^ 64 \<or> n * base + d > maxVal then Inl ErrRange
          else ParseUint_loop base maxVal (n * base + d) cs)"

definition ParseUint :: "byte list \<Rightarrow> nat \<Rightarrow> nat \<Rightarrow> error + nat" where
  "ParseUint s base bitSize =
     (if s = [] then Inl ErrSyntax else ParseUint_loop base (2 ^ bitSize - 1) 0 s)"

section \<open>Object model (objects/object.go)\<close>

type_synonym Hash = "byte list"

definition zeroHash :: Hash where
  "zeroHash = replicate 20 0"

record TreeElem =
  Elem_Name :: "byte list"
  Elem_Mode :: "32 word"
  Elem_Hash :: Hash

record Tree =
  Tree_Hash :: Hash
  Entries :: "TreeElem list"

text \<open>Git modes are \<open>uint16\<close>, \<open>os.FileMode\<close> is \<open>uint32\<close>.\<close>

definition ModeRegular :: "16 word" where "ModeRegular = push_bit 12 8"
definition ModeDir :: "16 word" where "ModeDir = push_bit 12 4"
definition ModeSymlink :: "16 word" where "ModeSymlink = push_bit 12 2"

definition os_ModeDir :: "32 word" where "os_ModeDir = push_bit 31 1"
definition os_ModeSymlink :: "32 word" where "os_ModeSymlink = push_bit 27 1"
definition os_ModePerm :: "32 word" where "os_ModePerm = 0x1FF"
definition os_ModeType :: "32 word" where
  "os_ModeType = push_bit 31 1 OR push_bit 27 1 OR push_bit 25 1 OR push_bit 24 1
     OR push_bit 26 1 OR push_bit 21 1 OR push_bit 19 1"

definition gitMode :: "32 word \<Rightarrow> 16 word" where
  "gitMode mode =
     (let m = ucast (mode AND os_ModePerm);
          m = (if mode AND os_ModeDir \<noteq> 0 then m OR ModeDir else m);
          m = (if mode AND os_ModeSymlink \<noteq> 0 then m OR ModeSymlink else m);
          m = (if mode AND os_ModeType = 0 then m OR ModeRegular else m)
      in m)"

definition osMode :: "16 word \<Rightarrow> 32 word" where
  "osMode mode =
     (let m = ucast (mode AND 0x1FF) in
      if mode AND ModeRegular \<noteq> 0 then m
      else
        (let m = (if mode AND ModeDir \<noteq> 0 then m OR os_ModeDir else m);
             m = (if mode AND ModeSymlink \<noteq> 0 then m OR os_ModeSymlink else m)
         in m))"

text \<open>\<open>parseTree\<close>: the loop consumes one entry per round; the Go function returns the
  tree built so far together with the error.\<close>

function parseTree_loop :: "Tree \<Rightarrow> byte list \<Rightarrow> Tree \<times> error option" where
  "parseTree_loop t s =
     (if s = [] then (t, None)
      else
        let sp = IndexByte s 0x20; nul = IndexByte s 0x00 in
        if sp \<noteq> 6 \<or> nul < sp \<or> nul + 20 \<ge> int (length s) then (t, Some errBadTreeData)
        else
          (case ParseUint (take (nat sp) s) 8 16 of
             Inl err \<Rightarrow> (t, Some err)
           | Inr mode \<Rightarrow>
               let e = \<lparr> Elem_Name = take (nat nul - (nat sp + 1)) (drop (nat sp + 1) s),
                         Elem_Mode = osMode (of_nat mode),
                         Elem_Hash = take 20 (drop (nat nul + 1) s) \<rparr>
               in parseTree_loop (t\<lparr> Entries := Entries t @ [e] \<rparr>) (drop (nat nul + 21) s)))"
  by pat_completeness auto
termination
  by (relation "measure (\<lambda>(t, s). length s)") auto

declare parseTree_loop.simps [simp del]

definition parseTree :: "byte list \<Rightarrow> Tree \<times> error option" where
  "parseTree s = parseTree_loop \<lparr> Tree_Hash = zeroHash, Entries = [] \<rparr> s"

text \<open>The other version of \<open>parseTree\<close> among the sources (the one in the file of
  \<open>parseCommit\<close>): it does not ask for the first space at index 6. Without a space in
  the rest of the payload, \<open>s[:sp]\<close> is \<open>s[:-1]\<close> and panics.\<close>

function parseTree_2_loop :: "Tree \<Rightarrow> byte list \<Rightarrow> (Tree \<times> error option) outcome" where
  "parseTree_2_loop t s =
     (if s = [] then Return (t, None)
      else
        let sp = IndexByte s 0x20; nul = IndexByte s 0x00 in
        if nul < sp \<or> nul + 20 \<ge> int (length s) then Return (t, Some errBadTreeData)
        else if sp < 0 then Panic (bytes_of ''runtime error: slice bounds out of range'')
        else
          (case ParseUint (take (nat sp) s) 8 16 of
             Inl err \<Rightarrow> Return (t, Some err)
           | Inr mode \<Rightarrow>
               let e = \<lparr> Elem_Name = take (nat nul - (nat sp + 1)) (drop (nat sp + 1) s),
                         Elem_Mode = osMode (of_nat mode),
                         Elem_Hash = take 20 (drop (nat nul + 1) s) \<rparr>
               in parseTree_2_loop (t\<lparr> Entries := Entries t @ [e] \<rparr>) (drop (nat nul + 21) s)))"
  by pat_completeness auto
termination
  by (relation "measure (\<lambda>(t, s). length s)") auto

declare parseTree_2_loop.simps [simp del]

definition parseTree_2 :: "byte list \<Rightarrow> (Tree \<times> error option) outcome" where
  "parseTree_2 s = parseTree_2_loop \<lparr> Tree_Hash = zeroHash, Entries = [] \<rparr> s"

subsection \<open>Commits\<close>

text \<open>\<open>time.Time\<close> as far as the sources use it: the Unix seconds and the fixed zone
  (name and offset in seconds east of UTC). The zero \<open>time.Time\<close> is January 1, year 1,
  00:00 UTC.\<close>

record Time =
  Time_unix :: int
  Time_zone :: "byte list"
  Time_offset :: int

definition zeroTime :: Time where
  "zeroTime = \<lparr> Time_unix = - 62135596800, Time_zone = bytes_of ''UTC'', Time_offset = 0 \<rparr>"

record Commit =
  Commit_Hash :: Hash
  Commit_Tree :: Hash
  Parents :: "Hash list"
  Author :: "byte list"
  AuthorTime :: Time
  Committer :: "byte list"
  CommitterTime :: Time
  Message :: "byte list"

definition zeroCommit :: Commit where
  "zeroCommit = \<lparr> Commit_Hash = zeroHash, Commit_Tree = zeroHash, Parents = [],
     Author = [], AuthorTime = zeroTime, Committer = [], CommitterTime = zeroTime,
     Message = [] \<rparr>"

text \<open>\<open>strconv.ParseInt(s, base, 64)\<close> and \<open>strconv.Atoi\<close> (an \<open>int\<close> has 64 bits).\<close>

definition ParseInt :: "byte list \<Rightarrow> nat \<Rightarrow> error + int" where
  "ParseInt s base =
     (if s = [] then Inl ErrSyntax
      else
        let neg = (hd s = 0x2D);
            s' = (if hd s = 0x2B \<or> hd s = 0x2D then tl s else s) in
        case ParseUint s' base 64 of
          Inl e \<Rightarrow> Inl e
        | Inr un \<Rightarrow>
            if \<not> neg \<and> un \<ge> 2 ^ 63 then Inl ErrRange
            else if neg \<and> un > 2 ^ 63 then Inl ErrRange
            else Inr (if neg then - int un else int un))"

definition Atoi :: "byte list \<Rightarrow> error + int" where
  "Atoi s = ParseInt s 10"

text \<open>\<open>bytes.LastIndexAny(s, " ")\<close>: the index of the last space, or \<open>-1\<close>.\<close>

fun LastIndexByte :: "byte list \<Rightarrow> byte \<Rightarrow> int" where
  "LastIndexByte [] c = -1"
| "LastIndexByte (x # xs) c =
     (let r = LastIndexByte xs c in
      if r \<ge> 0 then r + 1 else if x = c then 0 else -1)"

text \<open>\<open>hex.Decode(dst, src)\<close>: bytes are written into \<open>dst\<close> as they are decoded; writing
  past the end of \<open>dst\<close> is a run-time panic.\<close>

definition fromHexChar :: "byte \<Rightarrow> byte option" where
  "fromHexChar c =
     (if 0x30 \<le> c \<and> c \<le> 0x39 then Some (c - 0x30)
      else if 0x61 \<le> c \<and> c \<le> 0x66 then Some (c - 0x61 + 10)
      else if 0x41 \<le> c \<and> c \<le> 0x46 then Some (c - 0x41 + 10)
      else None)"

fun hex_Decode_loop :: "byte list \<Rightarrow> nat \<Rightarrow> byte list \<Rightarrow> (byte list \<times> nat \<times> error option) outcome" where
  "hex_Decode_loop dst i (p # q # src) =
     (case fromHexChar p of
        None \<Rightarrow> Return (dst, i, Some (InvalidByteError p))
      | Some a \<Rightarrow>
          (case fromHexChar q of
             None \<Rightarrow> Return (dst, i, Some (InvalidByteError q))
           | Some b \<Rightarrow>
               if i \<ge> length dst then Panic (bytes_of ''runtime error: index out of range'')
               else hex_Decode_loop (dst[i := push_bit 4 a OR b]) (i + 1) src))"
| "hex_Decode_loop dst i [p] =
     (case fromHexChar p of
        None \<Rightarrow> Return (dst, i, Some (InvalidByteError p))
      | Some a \<Rightarrow> Return (dst, i, Some ErrLength))"
| "hex_Decode_loop dst i [] = Return (dst, i, None)"

definition hex_Decode :: "byte list \<Rightarrow> byte list \<Rightarrow> (byte list \<times> nat \<times> error option) outcome" where
  "hex_Decode dst src = hex_Decode_loop dst 0 src"

text \<open>\<open>parseAuthor\<close> returns the name, the time and the error; on an error the name and
  the time are the zero values of the named results.\<close>

definition parseAuthor :: "byte list \<Rightarrow> byte list \<times> Time \<times> error option" where
  "parseAuthor line =
     (let sp1 = LastIndexByte line 0x20 in
      if sp1 < 0 then ([], zeroTime, Some errMalformedCommitLine)
      else
        let sp2 = LastIndexByte (take (nat sp1) line) 0x20 in
        if sp2 < 0 then ([], zeroTime, Some errMalformedCommitLine)
        else if sp1 + 6 \<noteq> int (length line) then ([], zeroTime, Some errMalformedCommitLine)
        else
          let z = drop (nat sp2) line in
          case ParseInt (take (nat (sp1 - sp2) - 1) (drop 1 z)) 10 of
            Inl e \<Rightarrow> ([], zeroTime, Some e)
          | Inr unix \<Rightarrow>
              (let z = drop (nat (sp1 - sp2)) z in
               (case Atoi (take 3 (drop 1 z)) of
                  Inl e \<Rightarrow> ([], zeroTime, Some e)
                | Inr zhour \<Rightarrow>
                    (case Atoi (take 2 (drop 4 z)) of
                       Inl e \<Rightarrow> ([], zeroTime, Some e)
                     | Inr zmin \<Rightarrow>
                         (take (nat sp2) line,
                          \<lparr> Time_unix = unix, Time_zone = drop 1 z,
                            Time_offset = zhour * 3600 + zmin * 60 \<rparr>,
                          None)))))"

text \<open>\<open>parseCommit\<close>: header lines until an empty line, then the message. The error
  of \<open>parseAuthor\<close> is stored in the result variable and overwritten by the final
  \<open>return c, nil\<close>; an unknown first word panics.\<close>

function parseCommit_loop :: "Commit \<Rightarrow> byte list \<Rightarrow> (Commit \<times> error option) outcome" where
  "parseCommit_loop c s =
     (if s = [] then Return (c\<lparr> Message := Message c @ s \<rparr>, None)
      else
        let i = IndexByte s 0x0A in
        if i < 0 then Return (c, Some errMalformedCommitLine)
        else
          let line = take (nat i) s; s' = drop (nat i + 1) s in
          if line = [] then Return (c\<lparr> Message := Message c @ s' \<rparr>, None)
          else
            let sp = IndexByte line 0x20 in
            if sp < 0 then Return (c, Some errMalformedCommitLine)
            else
              let word = take (nat sp) line; arg = drop (nat sp + 1) line in
              if word = bytes_of ''tree'' then
                (case hex_Decode (Commit_Tree c) arg of
                   Panic m \<Rightarrow> Panic m
                 | Return (dst, n, err) \<Rightarrow>
                     if err \<noteq> None \<or> n \<noteq> 20
                     then Return (c\<lparr> Commit_Tree := dst \<rparr>, Some errMalformedCommitLine)
                     else parseCommit_loop (c\<lparr> Commit_Tree := dst \<rparr>) s')
              else if word = bytes_of ''parent'' then
                (case hex_Decode zeroHash arg of
                   Panic m \<Rightarrow> Panic m
                 | Return (parent, n, err) \<Rightarrow>
                     if err \<noteq> None \<or> n \<noteq> 20
                     then Return (c, Some errMalformedCommitLine)
                     else parseCommit_loop (c\<lparr> Parents := Parents c @ [parent] \<rparr>) s')
              else if word = bytes_of ''author'' then
                (case parseAuthor arg of
                   (name, when, err) \<Rightarrow>
                     parseCommit_loop (c\<lparr> Author := name, AuthorTime := when \<rparr>) s')
              else if word = bytes_of ''committer'' then
                (case parseAuthor arg of
                   (name, when, err) \<Rightarrow>
                     parseCommit_loop (c\<lparr> Committer := name, CommitterTime := when \<rparr>) s')
              else Panic (bytes_of ''unrecognized commit header '' @ word))"
  by pat_completeness auto
termination
  by (relation "measure (\<lambda>(c, s). length s)") auto

declare parseCommit_loop.simps [simp del]

definition parseCommit :: "byte list \<Rightarrow> (Commit \<times> error option) outcome" where
  "parseCommit s = parseCommit_loop zeroCommit s"

subsection \<open>Tree payloads and their ordering\<close>

text \<open>A tree payload is a sequence of entries \<open>mode ' ' name NUL hash\<close>; an entry is kept
  here as the triple of its mode field, its name and its hash.\<close>

definition entry_bytes :: "byte list \<times> byte list \<times> Hash \<Rightarrow> byte list" where
  "entry_bytes e = (case e of (md, name, h) \<Rightarrow> md @ [0x20] @ name @ [0x00] @ h)"

definition tree_payload :: "(byte list \<times> byte list \<times> Hash) list \<Rightarrow> byte list" where
  "tree_payload es = concat (map entry_bytes es)"

definition octal_digit :: "byte \<Rightarrow> bool" where
  "octal_digit c \<longleftrightarrow> 0x30 \<le> c \<and> c \<le> 0x37"

definition octal_val :: "byte list \<Rightarrow> nat" where
  "octal_val ds = foldl (\<lambda>n c. n * 8 + (unat c - 0x30)) 0 ds"

definition entry_elem :: "byte list \<times> byte list \<times> Hash \<Rightarrow> TreeElem" where
  "entry_elem e = (case e of (md, name, h) \<Rightarrow>
     \<lparr> Elem_Name = name, Elem_Mode = osMode (of_nat (octal_val md)), Elem_Hash = h \<rparr>)"

text \<open>The entries \<open>parseTree\<close> takes: a mode field of exactly six octal digits whose value
  fits 16 bits, a name without NUL, a hash of 20 bytes.\<close>

definition entry_ok :: "byte list \<times> byte list \<times> Hash \<Rightarrow> bool" where
  "entry_ok e = (case e of (md, name, h) \<Rightarrow>
     length md = 6 \<and> list_all octal_digit md \<and> octal_val md < 65536 \<and>
     0 \<notin> set name \<and> length h = 20)"

text \<open>The entries with a mode field of one to six octal digits whose value fits 16 bits.\<close>

definition entry_ok16 :: "byte list \<times> byte list \<times> Hash \<Rightarrow> bool" where
  "entry_ok16 e = (case e of (md, name, h) \<Rightarrow>
     1 \<le> length md \<and> length md \<le> 6 \<and> list_all octal_digit md \<and> octal_val md < 65536 \<and>
     0 \<notin> set name \<and> length h = 20)"

text \<open>Modelled from the spec: the directory-suffix comparator of section 4.4, which the
  sources do not contain. A directory entry \<open>N\<close> compares as \<open>N/\<close>; keys are compared
  bytewise.\<close>

fun bytes_less :: "byte list \<Rightarrow> byte list \<Rightarrow> bool" where
  "bytes_less [] [] = False"
| "bytes_less [] (y # ys) = True"
| "bytes_less (x # xs) [] = False"
| "bytes_less (x # xs) (y # ys) = (x < y \<or> (x = y \<and> bytes_less xs ys))"

definition sort_key :: "TreeElem \<Rightarrow> byte list" where
  "sort_key e = Elem_Name e @ (if Elem_Mode e AND os_ModeDir \<noteq> 0 then [0x2F] else [])"

fun strictly_increasing :: "TreeElem list \<Rightarrow> bool" where
  "strictly_increasing (x # y # r) = (bytes_less (sort_key x) (sort_key y) \<and> strictly_increasing (y # r))"
| "strictly_increasing r = True"

text \<open>The hashes of the test tree of \<open>TestWriteTree\<close>.\<close>

definition hash_a :: Hash where
  "hash_a = [0xe9,0x65,0x04,0x7a,0xd7,0xc5,0x78,0x65,0x82,0x3c,0x7d,0x99,0x2b,0x1d,0x04,0x6e,0xa6,0x6e,0xdf,0x78]"

definition hash_b :: Hash where
  "hash_b = [0x21,0x6e,0x97,0xce,0x08,0x22,0x9b,0x87,0x76,0xd3,0xfe,0xb7,0x31,0xc6,0xd2,0x3a,0x2f,0x66,0x9a,0xc8]"

section \<open>Delta encoding (gitdelta)\<close>

text \<open>\<open>binary.PutUvarint\<close>: seven bits per byte, least significant group first, bit 7 set
  on every byte but the last.\<close>

fun PutUvarint :: "nat \<Rightarrow> byte list" where
  "PutUvarint x = (if x < 0x80 then [of_nat x] else of_nat (x mod 0x80 + 0x80) # PutUvarint (x div 0x80))"

declare PutUvarint.simps [simp del]

text \<open>The Rabin fingerprint the encoder uses, \<open>hashRabin\<close>, the tables \<open>_T\<close> and \<open>_U\<close>
  and the constants \<open>_W\<close> and \<open>degree\<close> are declared in a file that is not among the
  sources; the encoder takes them as a parameter.\<close>

record rabin =
  W :: nat
  degree :: nat
  T :: "byte \<Rightarrow> 32 word"
  U :: "byte \<Rightarrow> 32 word"
  hashRabin :: "byte list \<Rightarrow> 32 word"

text \<open>One step of the rolling hash:
  \<open>p = (p << 8) ^ uint32(b) ^ _T[uint8(p >> (degree-8))]\<close>.\<close>

definition roll :: "rabin \<Rightarrow> 32 word \<Rightarrow> byte \<Rightarrow> 32 word" where
  "roll r p b = push_bit 8 p XOR ucast b XOR T r (ucast (drop_bit (degree r - 8) p))"

text \<open>\<open>hashChunks\<close>: the loop runs over \<open>i = k * W\<close> from \<open>k = nbHash - 1\<close> down to
  \<open>k = 1\<close>, so that a smaller index overwrites a larger one.\<close>

fun hashChunks_loop :: "rabin \<Rightarrow> byte list \<Rightarrow> nat \<Rightarrow> (32 word \<rightharpoonup> nat) \<Rightarrow> (32 word \<rightharpoonup> nat)" where
  "hashChunks_loop r input 0 hashes = hashes"
| "hashChunks_loop r input (Suc k) hashes =
     hashChunks_loop r input k
       (hashes(hashRabin r (take (W r) (drop (Suc k * W r) input)) \<mapsto> Suc k * W r))"

definition hashChunks :: "rabin \<Rightarrow> byte list \<Rightarrow> (32 word \<rightharpoonup> nat)" where
  "hashChunks r input = hashChunks_loop r input (length input div W r - 1) Map.empty"

text \<open>\<open>appendInlineData\<close> encodes inline data in a patch.\<close>

function appendInlineData :: "byte list \<Rightarrow> byte list \<Rightarrow> byte list" where
  "appendInlineData patch data =
     (if length data > 0x7F
      then appendInlineData (patch @ [0x7F] @ take 0x7F data) (drop 0x7F data)
      else if length data > 0 then patch @ [of_nat (length data)] @ data
      else patch)"
  by pat_completeness auto
termination
  by (relation "measure (\<lambda>(patch, data). length data)") auto

declare appendInlineData.simps [simp del]

text \<open>\<open>appendRefData\<close> encodes a reference to the original data: first the copies of
  length \<open>1 << 16\<close>, then the rest.\<close>

definition copy64k :: "32 word \<Rightarrow> byte list" where
  "copy64k off =
     (if drop_bit 8 off = 0 then [0x81, ucast off]
      else if drop_bit 16 off = 0 then [0x83, ucast off, ucast (drop_bit 8 off)]
      else if drop_bit 24 off = 0 then [0x87, ucast off, ucast (drop_bit 8 off), ucast (drop_bit 16 off)]
      else [0x8F, ucast off, ucast (drop_bit 8 off), ucast (drop_bit 16 off), ucast (drop_bit 24 off)])"

text \<open>One of the six steps \<open>if b := ...; b != 0 { op |= flag; patch = append(patch, b) }\<close>
  of \<open>appendRefData\<close>, on the pair of \<open>op\<close> and \<open>patch\<close>.\<close>

definition putByte :: "byte \<Rightarrow> byte \<Rightarrow> byte \<times> byte list \<Rightarrow> byte \<times> byte list" where
  "putByte flag b s = (case s of (op, patch) \<Rightarrow> if b \<noteq> 0 then (op OR flag, patch @ [b]) else (op, patch))"

text \<open>The tail of \<open>appendRefData\<close>: the opcode byte is patched in at the end; the offset
  bytes 1, 2 and 3 all set bit \<open>2\<close> of the opcode, as the source has it.\<close>

definition refFields :: "32 word \<Rightarrow> 32 word \<Rightarrow> byte \<times> byte list \<Rightarrow> byte \<times> byte list" where
  "refFields off len s =
     (let s = putByte 1 (ucast off) s;
          s = putByte 2 (ucast (drop_bit 8 off)) s;
          s = putByte 2 (ucast (drop_bit 16 off)) s;
          s = putByte 2 (ucast (drop_bit 24 off)) s;
          s = putByte 0x10 (ucast len) s;
          s = putByte 0x20 (ucast (drop_bit 8 len)) s
      in s)"

definition appendRefTail :: "byte list \<Rightarrow> 32 word \<Rightarrow> 32 word \<Rightarrow> byte list" where
  "appendRefTail patch off len =
     (let iop = length patch;
          (op, patch) = refFields off len (0x80, patch @ [0])
      in patch[iop := op])"

function appendRefData :: "byte list \<Rightarrow> 32 word \<Rightarrow> 32 word \<Rightarrow> byte list" where
  "appendRefData patch off len =
     (if len > 0x10000
      then appendRefData (patch @ copy64k off) (off + 0x10000) (len - 0x10000)
      else appendRefTail patch off len)"
  by pat_completeness auto
termination
  by (relation "measure (\<lambda>(patch, off, len). unat len)") (auto simp: unat_sub word_less_nat_alt word_le_nat_alt)

declare appendRefData.simps [simp del]

text \<open>The two inner loops of \<open>Diff\<close> that extend a match to the left and to the right.\<close>

fun extendLeft :: "byte list \<Rightarrow> byte list \<Rightarrow> int \<Rightarrow> nat \<Rightarrow> nat \<Rightarrow> nat \<times> nat" where
  "extendLeft data1 data2 lastmatch (Suc refi) testi =
     (if int testi > lastmatch + 1 \<and> data1 ! refi = data2 ! (testi - 1)
      then extendLeft data1 data2 lastmatch refi (testi - 1)
      else (Suc refi, testi))"
| "extendLeft data1 data2 lastmatch 0 testi = (0, testi)"

function extendRight :: "byte list \<Rightarrow> byte list \<Rightarrow> nat \<Rightarrow> nat \<Rightarrow> nat \<times> nat" where
  "extendRight data1 data2 refj testj =
     (if refj < length data1 \<and> testj < length data2 \<and> data1 ! refj = data2 ! testj
      then extendRight data1 data2 (refj + 1) (testj + 1)
      else (refj, testj))"
  by pat_completeness auto
termination
  by (relation "measure (\<lambda>(data1, data2, refj, testj). length data1 - refj)") auto

declare extendRight.simps [simp del]

text \<open>The hash update over the skipped bytes after a match:
  \<open>p ^= _U[data2[(i+tmp)-_W]]\<close>, then one step of the rolling hash.\<close>

fun skipHash :: "rabin \<Rightarrow> byte list \<Rightarrow> nat \<Rightarrow> 32 word \<Rightarrow> byte list \<Rightarrow> 32 word" where
  "skipHash r data2 j p [] = p"
| "skipHash r data2 j p (b # skipped) =
     skipHash r data2 (j + 1) (roll r (p XOR U r (data2 ! (j - W r))) b) skipped"

text \<open>The main loop of \<open>Diff\<close>, with the loop variables \<open>i\<close>, \<open>p\<close>, \<open>lastmatch\<close> and
  \<open>patch\<close>; it returns \<open>lastmatch\<close> and \<open>patch\<close> as they are when the loop is left.\<close>

function Diff_loop :: "rabin \<Rightarrow> (32 word \<rightharpoonup> nat) \<Rightarrow> byte list \<Rightarrow> byte list \<Rightarrow>
    nat \<Rightarrow> 32 word \<Rightarrow> int \<Rightarrow> byte list \<Rightarrow> int \<times> byte list" where
  "Diff_loop r hashes data1 data2 i p lastmatch patch =
     (if \<not> i < length data2 then (lastmatch, patch)
      else
        let b = data2 ! i in
        if i < W r then Diff_loop r hashes data1 data2 (i + 1) (roll r p b) lastmatch patch
        else
          (case (case hashes p of
                   None \<Rightarrow> None
                 | Some refi \<Rightarrow>
                     if take (W r) (drop refi data1) = take (W r) (drop (i - W r) data2)
                     then Some refi else None) of
             Some refi \<Rightarrow>
               let (refi, testi) = extendLeft data1 data2 lastmatch refi (i - W r);
                   (refj, testj) = extendRight data1 data2 (refi + i - testi) i;
                   patch = appendInlineData patch
                             (take (testi - nat (lastmatch + 1)) (drop (nat (lastmatch + 1)) data2));
                   patch = appendRefData patch (of_nat refi) (of_nat (refj - refi));
                   skipped = (if testj + W r < length data2
                              then take (testj + W r - i) (drop i data2) else drop i data2);
                   p = skipHash r data2 i p skipped;
                   lastmatch = int testj - 1
               in if i + length skipped = length data2 then (lastmatch, patch)
                  else
                    let i = i + length skipped; b = data2 ! i in
                    Diff_loop r hashes data1 data2 (i + 1)
                      (roll r (p XOR U r (data2 ! (i - W r))) b) lastmatch patch
           | None \<Rightarrow>
               Diff_loop r hashes data1 data2 (i + 1)
                 (roll r (p XOR U r (data2 ! (i - W r))) b) lastmatch patch))"
  by pat_completeness auto
termination
  by (relation "measure (\<lambda>(r, hashes, data1, data2, i, p, lastmatch, patch). length data2 - i)") auto

declare Diff_loop.simps [simp del]

definition Diff :: "rabin \<Rightarrow> byte list \<Rightarrow> byte list \<Rightarrow> byte list" where
  "Diff r data1 data2 =
     (let patch = PutUvarint (length data1) @ PutUvarint (length data2);
          hashes = hashChunks r data1;
          (lastmatch, patch) = Diff_loop r hashes data1 data2 0 0 (-1) patch
      in appendInlineData patch (drop (nat (lastmatch + 1)) data2))"

subsection \<open>The patch interpreter\<close>

text \<open>Modelled from the spec: \<open>gitdelta.Patch\<close>, whose source file is not among the
  sources, after section 4.2. A size varint has seven payload bits per byte, least
  significant group first, bit 7 set on every byte but the last.\<close>

fun sizeVarint :: "byte list \<Rightarrow> (nat \<times> byte list) option" where
  "sizeVarint [] = None"
| "sizeVarint (b # bs) =
     (if b AND 0x80 = 0 then Some (unat b, bs)
      else (case sizeVarint bs of
              None \<Rightarrow> None
            | Some (v, rest) \<Rightarrow> Some (unat (b AND 0x7F) + 0x80 * v, rest)))"

text \<open>Modelled from the spec: the operand bytes of a copy. Bit \<open>k\<close> of the opcode selects
  whether the byte at position \<open>k\<close> of the field follows; an unselected position
  contributes zero.\<close>

fun copyField :: "byte \<Rightarrow> nat \<Rightarrow> nat \<Rightarrow> byte list \<Rightarrow> (nat \<times> byte list) option" where
  "copyField opc k 0 bs = Some (0, bs)"
| "copyField opc k (Suc n) bs =
     (if opc AND push_bit k 1 \<noteq> 0
      then (case bs of
              [] \<Rightarrow> None
            | b # bs' \<Rightarrow>
                (case copyField opc (k + 1) n bs' of
                   None \<Rightarrow> None
                 | Some (v, rest) \<Rightarrow> Some (unat b + 0x100 * v, rest)))
      else (case copyField opc (k + 1) n bs of
              None \<Rightarrow> None
            | Some (v, rest) \<Rightarrow> Some (0x100 * v, rest)))"

text \<open>Modelled from the spec: the opcode stream. An opcode with bit 7 clear inserts that
  many literal bytes, the opcode \<open>0\<close> is rejected; an opcode with bit 7 set copies
  \<open>base[offset : offset + length]\<close>, a length of zero standing for \<open>0x10000\<close>.\<close>

function Patch_loop :: "byte list \<Rightarrow> byte list \<Rightarrow> byte list \<Rightarrow> error + byte list" where
  "Patch_loop base [] out = Inr out"
| "Patch_loop base (opc # delta) out =
     (if opc AND 0x80 = 0 then
        (if opc = 0 then Inl BadDelta
         else if unat opc > length delta then Inl BadDelta
         else Patch_loop base (drop (unat opc) delta) (out @ take (unat opc) delta))
      else
        (case copyField opc 0 4 delta of
           None \<Rightarrow> Inl BadDelta
         | Some (offset, rest) \<Rightarrow>
             (case copyField opc 4 3 rest of
                None \<Rightarrow> Inl BadDelta
              | Some (len0, rest') \<Rightarrow>
                  let len = (if len0 = 0 then 0x10000 else len0) in
                  if offset + len > length base then Inl BadDelta
                  else Patch_loop base rest' (out @ take len (drop offset base)))))"
  by pat_completeness auto
termination
proof (relation "measure (\<lambda>(base, delta, out). length delta)")
  have shorter: "length rest \<le> length bs"
    if "copyField opc k n bs = Some (v, rest)" for opc k n bs v rest
    using that
  proof (induction n arbitrary: k bs v)
    case 0
    then show ?case by simp
  next
    case (Suc n)
    then show ?case
      by (fastforce split: if_splits list.splits option.splits)
  qed
  fix base :: "byte list" and opc :: byte and delta out :: "byte list"
    and x2 :: "nat \<times> byte list" and offset :: nat and rest :: "byte list"
    and x2a :: "nat \<times> byte list" and len0 :: nat and rest' :: "byte list" and len :: nat
  assume "copyField opc 0 4 delta = Some x2" "(offset, rest) = x2"
    "copyField opc 4 3 rest = Some x2a" "(len0, rest') = x2a"
  then have "length rest \<le> length delta" "length rest' \<le> length rest"
    using shorter [of opc 0 4 delta offset rest] shorter [of opc 4 3 rest len0 rest'] by auto
  then show "((base, rest', out @ take len (drop offset base)), base, opc # delta, out)
      \<in> measure (\<lambda>(base, delta, out). length delta)"
    by simp
qed auto

declare Patch_loop.simps [simp del]

definition Patch :: "byte list \<Rightarrow> byte list \<Rightarrow> error + byte list" where
  "Patch base delta =
     (case sizeVarint delta of
        None \<Rightarrow> Inl BadDeltaHeader
      | Some (src_size, rest) \<Rightarrow>
          (case sizeVarint rest of
             None \<Rightarrow> Inl BadDeltaHeader
           | Some (dst_size, body) \<Rightarrow>
               if src_size \<noteq> length base then Inl BadDeltaHeader
               else (case Patch_loop base body [] of
                       Inl e \<Rightarrow> Inl e
                     | Inr out \<Rightarrow> if length out \<noteq> dst_size then Inl SizeMismatch else Inr out)))"

subsection \<open>The instructions of a delta\<close>





subsection \<open>A base of more than 64 KiB\<close>

text \<open>A base of 65536 zero bytes followed by a chunk of 16 bytes, and a target that
  starts with this chunk.\<close>

definition chunk16 :: "byte list" where
  "chunk16 = [1, 2, 3, 4, 5, 6, 7, 8, 9, 10, 11, 12, 13, 14, 15, 16]"

definition big_data1 :: "byte list" where
  "big_data1 = replicate 65536 0 @ chunk16"

definition big_data2 :: "byte list" where
  "big_data2 = chunk16 @ [17]"

text \<open>A fingerprint to run the encoder with: chunks of 16 bytes, the polynomial \<open>x^32\<close>,
  for which both tables are zero and the fingerprint of a chunk is its last four bytes.\<close>

definition rabin_x32 :: rabin where
  "rabin_x32 = \<lparr> W = 16, degree = 32, T = (\<lambda>b. 0), U = (\<lambda>b. 0),
     hashRabin = foldl (\<lambda>p b. push_bit 8 p XOR ucast b) 0 \<rparr>"

section \<open>Pack files (objects/pack.go)\<close>

text \<open>An \<open>io.SectionReader\<close> over a whole file: the bytes of the file and the cursor of
  \<open>Read\<close> and \<open>Seek\<close>. \<open>ReadAt\<close> reads at most \<open>n\<close> bytes at the offset \<open>off\<close> and reports
  \<open>EOF\<close> when fewer than \<open>n\<close> are there or the offset is outside the file; it returns
  the reader as it leaves it.\<close>

record SectionReader =
  sr_data :: "byte list"
  sr_off :: int

definition ReadAt :: "SectionReader \<Rightarrow> nat \<Rightarrow> int \<Rightarrow> (byte list \<times> error option) \<times> SectionReader" where
  "ReadAt s n off =
     (if off < 0 \<or> off \<ge> int (length (sr_data s)) then (([], Some EOF), s)
      else
        let bs = take n (drop (nat off) (sr_data s)) in
        ((bs, if length bs < n then Some EOF else None), s))"

text \<open>A buffer after a read of \<open>bs\<close> into its start.\<close>

definition fill :: "byte list \<Rightarrow> byte list \<Rightarrow> byte list" where
  "fill buf bs = bs @ drop (length bs) buf"

record PackReader =
  version :: int
  pack :: SectionReader
  idx :: SectionReader
  idxFanout :: "32 word list"

definition idx_ReadAt :: "PackReader \<Rightarrow> nat \<Rightarrow> int \<Rightarrow> (byte list \<times> error option) \<times> PackReader" where
  "idx_ReadAt pk n off = (case ReadAt (idx pk) n off of (r, s) \<Rightarrow> (r, pk\<lparr> idx := s \<rparr>))"

definition pack_ReadAt :: "PackReader \<Rightarrow> nat \<Rightarrow> int \<Rightarrow> (byte list \<times> error option) \<times> PackReader" where
  "pack_ReadAt pk n off = (case ReadAt (pack pk) n off of (r, s) \<Rightarrow> (r, pk\<lparr> pack := s \<rparr>))"

definition idxHeaderSize :: int where
  "idxHeaderSize = 4 + 4 + 256 * 4"

text \<open>\<open>binary.BigEndian.Uint32\<close> and \<open>Uint64\<close>.\<close>

definition be_word :: "byte list \<Rightarrow> 'a::len word" where
  "be_word bs = foldl (\<lambda>w b. push_bit 8 w OR ucast b) 0 bs"

text \<open>\<open>bytes.Compare\<close>: \<open>-1\<close>, \<open>0\<close> or \<open>1\<close>.\<close>

fun Compare :: "byte list \<Rightarrow> byte list \<Rightarrow> int" where
  "Compare [] [] = 0"
| "Compare [] (y # ys) = -1"
| "Compare (x # xs) [] = 1"
| "Compare (x # xs) (y # ys) = (if x < y then -1 else if x > y then 1 else Compare xs ys)"

text \<open>The end of \<open>findObject\<close> (\<open>min'\<close> stands for the variable \<open>min\<close> of the source,
  \<open>max'\<close> for \<open>max\<close>), the same in both versions of the function: the offset is
  read from the 32-bit table at the position \<open>min\<close>; if its top bit is set, eight bytes
  are read from the 64-bit table, at the position \<open>min\<close> as well, and returned with the
  error of that read.\<close>

definition findObject_offset :: "int \<Rightarrow> PackReader \<Rightarrow> (64 word \<times> error option) \<times> PackReader" where
  "findObject_offset min' pk =
     (let objcount = uint (idxFanout pk ! 0xFF);
          offb = replicate 8 0;
          ((bs, err), pk) = idx_ReadAt pk 4 (idxHeaderSize + 24 * objcount + 4 * min')
      in if err \<noteq> None then ((0, err), pk)
         else
           let offb = fill offb bs;
               off32 = (be_word (take 4 offb) :: 32 word)
           in if 0 \<le>s off32 then ((scast off32, None), pk)
              else
                let ((bs, err), pk) = idx_ReadAt pk 8 (idxHeaderSize + 28 * objcount + 8 * min');
                    offb = fill offb bs
                in ((be_word offb, err), pk))"

text \<open>The binary search of \<open>findObject\<close> (the version with \<open>for min < max\<close>). The loop
  returns \<open>min\<close> and \<open>max\<close> as they are when it is left, or the error of a read. Both are
  non-negative when \<open>med\<close> is computed, so Go's division is \<open>div\<close>.\<close>

function BinarySearch :: "Hash \<Rightarrow> int \<Rightarrow> int \<Rightarrow> PackReader \<Rightarrow> (error + int \<times> int) \<times> PackReader" where
  "BinarySearch hash min' max' pk =
     (if min' < max' then
        let med = (min' + max') div 2;
            ((bs, err), pk) = idx_ReadAt pk 20 (idxHeaderSize + med * 20)
        in case err of
             Some e \<Rightarrow> (Inl e, pk)
           | None \<Rightarrow>
               let cmp = Compare (fill (replicate 20 0) bs) hash in
               if cmp < 0 then BinarySearch hash (med + 1) max' pk
               else if cmp > 0 then BinarySearch hash min' (med - 1) pk
               else (Inr (med, med), pk)
      else (Inr (min', max'), pk))"
  by pat_completeness auto
termination
  by (relation "measure (\<lambda>(hash, min', max', pk). nat (max' - min'))") auto

declare BinarySearch.simps [simp del]

definition findObject :: "Hash \<Rightarrow> PackReader \<Rightarrow> (64 word \<times> error option) \<times> PackReader" where
  "findObject hash pk =
     (let max' = uint (idxFanout pk ! unat (hash ! 0));
          min' = (if hash ! 0 > 0 then uint (idxFanout pk ! unat (hash ! 0 - 1)) else 0);
          ((hmin, err), pk) = idx_ReadAt pk 20 (idxHeaderSize + min' * 20)
      in if err \<noteq> None then ((0, err), pk)
         else
           let ((hmax, err), pk) = idx_ReadAt pk 20 (idxHeaderSize + max' * 20)
           in if err \<noteq> None then ((0, err), pk)
              else
                (case BinarySearch hash min' max' pk of
                   (Inl e, pk) \<Rightarrow> ((0, Some e), pk)
                 | (Inr (min', max'), pk) \<Rightarrow>
                     if min' > max' then ((0, Some errNotFoundInPack), pk)
                     else findObject_offset min' pk))"

text \<open>The other version of \<open>findObject\<close> among the sources, with the loop
  \<open>for max-min >= 2\<close> and no return of \<open>errNotFoundInPack\<close>.\<close>

function BinarySearch_2 :: "Hash \<Rightarrow> int \<Rightarrow> int \<Rightarrow> PackReader \<Rightarrow> (error + int \<times> int) \<times> PackReader" where
  "BinarySearch_2 hash min' max' pk =
     (if max' - min' \<ge> 2 then
        let med = (min' + max') div 2;
            ((bs, err), pk) = idx_ReadAt pk 20 (idxHeaderSize + med * 20)
        in case err of
             Some e \<Rightarrow> (Inl e, pk)
           | None \<Rightarrow>
               let cmp = Compare (fill (replicate 20 0) bs) hash in
               if cmp < 0 then BinarySearch_2 hash med max' pk
               else if cmp > 0 then BinarySearch_2 hash min' med pk
               else (Inr (med, med), pk)
      else (Inr (min', max'), pk))"
  by pat_completeness auto
termination
  by (relation "measure (\<lambda>(hash, min', max', pk). nat (max' - min'))") auto

declare BinarySearch_2.simps [simp del]

definition findObject_2 :: "Hash \<Rightarrow> PackReader \<Rightarrow> (64 word \<times> error option) \<times> PackReader" where
  "findObject_2 hash pk =
     (let max' = uint (idxFanout pk ! unat (hash ! 0));
          min' = (if hash ! 0 > 0 then uint (idxFanout pk ! unat (hash ! 0 - 1)) else 0);
          ((hmin, err), pk) = idx_ReadAt pk 20 (idxHeaderSize + min' * 20)
      in if err \<noteq> None then ((0, err), pk)
         else
           let ((hmax, err), pk) = idx_ReadAt pk 20 (idxHeaderSize + max' * 20)
           in if err \<noteq> None then ((0, err), pk)
              else
                (case BinarySearch_2 hash min' max' pk of
                   (Inl e, pk) \<Rightarrow> ((0, Some e), pk)
                 | (Inr (min', max'), pk) \<Rightarrow> findObject_offset min' pk))"

text \<open>\<open>Objects\<close> returns the list of hashes of the objects stored in the pack. The size
  \<open>20*count\<close> of the buffer is computed in \<open>uint32\<close>; where it wraps, the buffer is shorter
  than the hashes read from it and \<open>buf[20*i:20*(i+1)]\<close> panics. Both calls of \<open>make\<close>
  can fail.\<close>

definition Objects :: "nat \<Rightarrow> PackReader \<Rightarrow> (Hash list \<times> error option) outcome \<times> PackReader" where
  "Objects lim pk =
     (let count = idxFanout pk ! 0xFF in
      if make_fails lim (uint (20 * count)) then (Panic makeslice_panic, pk)
      else
        let ((buf, err), pk) = idx_ReadAt pk (unat (20 * count)) idxHeaderSize
        in if err \<noteq> None then (Return ([], err), pk)
           else if make_fails lim (20 * uint count) then (Panic makeslice_panic, pk)
           else if unat (20 * count) < 20 * unat count
           then (Panic (bytes_of ''runtime error: slice bounds out of range''), pk)
           else (Return (map (\<lambda>i. take 20 (drop (20 * i) buf)) [0..<unat count], None), pk))"

subsection \<open>An index of two objects\<close>

text \<open>A version 2 index of two objects whose hashes start with the byte 0: the hash of 20
  zero bytes, at pack offset 12, and the hash of 19 zero bytes and the byte 2, at the
  pack offset \<open>2^32\<close>, entry 0 of the 64-bit table. After the tables come the two
  checksums.\<close>

definition idx2_tables :: "byte list" where
  "idx2_tables =
     replicate 20 0 @ (replicate 19 0 @ [2])
     @ replicate 8 0
     @ [0, 0, 0, 12] @ [0x80, 0, 0, 0]
     @ [0, 0, 0, 1, 0, 0, 0, 0]
     @ replicate 20 0x11 @ replicate 20 0x22"

definition idx2_fanout :: "byte list" where
  "idx2_fanout = concat (replicate 256 [0, 0, 0, 2])"

definition idx2 :: "byte list" where
  "idx2 = [0xFF, 0x74, 0x4F, 0x63, 0, 0, 0, 2] @ idx2_fanout @ idx2_tables"

definition pk2 :: PackReader where
  "pk2 = \<lparr> version = 2,
           pack = \<lparr> sr_data = [0x50, 0x41, 0x43, 0x4B, 0, 0, 0, 2, 0, 0, 0, 2], sr_off = 0 \<rparr>,
           idx = \<lparr> sr_data = idx2, sr_off = 0 \<rparr>,
           idxFanout = replicate 256 2 \<rparr>"

text \<open>The hash of the second object, and a hash that is not in the index.\<close>

definition hash_02 :: Hash where
  "hash_02 = replicate 19 0 @ [2]"

definition hash_01 :: Hash where
  "hash_01 = replicate 19 0 @ [1]"

subsection \<open>Extraction\<close>

text \<open>\<open>binary.Uvarint\<close>: the value and the number of bytes read; \<open>(0, -(i+1))\<close> on an
  overflow of 64 bits, \<open>(0, 0)\<close> when the buffer ends before the value does.\<close>

fun Uvarint_loop :: "byte list \<Rightarrow> nat \<Rightarrow> 64 word \<Rightarrow> nat \<Rightarrow> 64 word \<times> int" where
  "Uvarint_loop [] i x s = (0, 0)"
| "Uvarint_loop (b # bs) i x s =
     (if i = 10 then (0, - (int i + 1))
      else if b < 0x80 then
        (if i = 9 \<and> b > 1 then (0, - (int i + 1))
         else (x OR push_bit s (ucast b), int i + 1))
      else Uvarint_loop bs (i + 1) (x OR push_bit s (ucast (b AND 0x7F))) (s + 7))"

definition Uvarint :: "byte list \<Rightarrow> 64 word \<times> int" where
  "Uvarint buf = Uvarint_loop buf 0 0 0"

text \<open>The zlib stream that starts with the given bytes is a parameter of the model:
  either the error of \<open>zlib.NewReader\<close>, or the bytes the reader delivers and the error
  that ends them (\<open>EOF\<close> at the end of a sound stream).\<close>

type_synonym zlib = "byte list \<Rightarrow> error + (byte list \<times> error)"

text \<open>\<open>readCompressed\<close> reads \<open>n\<close> bytes of the stream that starts at \<open>offset\<close>, as
  \<open>io.ReadFull\<close> does.\<close>

definition readCompressed :: "zlib \<Rightarrow> SectionReader \<Rightarrow> int \<Rightarrow> nat \<Rightarrow> (byte list \<times> error option) \<times> SectionReader" where
  "readCompressed zl r offset n =
     (let input = (if offset < 0 \<or> offset > int (length (sr_data r)) then []
                   else drop (nat offset) (sr_data r))
      in case zl input of
           Inl e \<Rightarrow> (([], Some e), r)
         | Inr (out, e) \<Rightarrow>
             if length out \<ge> n then ((take n out, None), r)
             else if out = [] then (([], Some e), r)
             else ((out, Some (if e = EOF then ErrUnexpectedEOF else e)), r))"

definition pack_readCompressed :: "zlib \<Rightarrow> PackReader \<Rightarrow> int \<Rightarrow> nat \<Rightarrow> (byte list \<times> error option) \<times> PackReader" where
  "pack_readCompressed zl pk offset n =
     (case readCompressed zl (pack pk) offset n of (r, s) \<Rightarrow> (r, pk\<lparr> pack := s \<rparr>))"

text \<open>\<open>readVaroffset\<close> reads the pseudo-varint that encodes the distance to a delta base,
  from the bytes \<open>buf[:n]\<close> that were read.\<close>

fun readVaroffset_loop :: "byte list \<Rightarrow> nat \<Rightarrow> 64 word \<Rightarrow> 64 word \<times> int \<times> error option" where
  "readVaroffset_loop [] i u = (u, 16, Some ErrUnexpectedEOF)"
| "readVaroffset_loop (b # bs) i u =
     (let u = (if i > 0 then u + 1 else u);
          u = push_bit 7 u;
          u = u OR ucast (b AND NOT 0x80)
      in if b AND 0x80 = 0 then (u, int i + 1, None)
         else readVaroffset_loop bs (i + 1) u)"

definition readVaroffset :: "PackReader \<Rightarrow> int \<Rightarrow> (64 word \<times> int \<times> error option) \<times> PackReader" where
  "readVaroffset pk offset =
     (let ((bs, err), pk) = pack_ReadAt pk 16 offset;
          n = int (length bs);
          err = (if err = Some EOF \<or> err = Some ErrUnexpectedEOF then None else err)
      in if err \<noteq> None then ((0, n, err), pk)
         else (readVaroffset_loop bs 0 0, pk))"

text \<open>The types of the entries of a pack.\<close>

definition pkCommit :: nat where "pkCommit = 1"
definition pkTree :: nat where "pkTree = 2"
definition pkBlob :: nat where "pkBlob = 3"
definition pkTag :: nat where "pkTag = 4"
definition pkOfsDelta :: nat where "pkOfsDelta = 6"
definition pkRefDelta :: nat where "pkRefDelta = 7"

text \<open>What \<open>extractAt\<close> does with the base of a delta once it is extracted (the same for
  both kinds of delta): a panic goes on, an error of the base is returned with the patch as
  data, otherwise the patch is applied.\<close>

fun applyDelta :: "(nat \<times> byte list \<times> error option) outcome \<Rightarrow> byte list \<Rightarrow>
    (nat \<times> byte list \<times> error option) outcome" where
  "applyDelta (Panic m) patch = Panic m"
| "applyDelta (Return (typ, data, err)) patch =
     (if err \<noteq> None then Return (typ, patch, err)
      else (case Patch data patch of
              Inl e \<Rightarrow> Return (typ, patch, Some e)
            | Inr data' \<Rightarrow> Return (typ, data', None)))"

text \<open>\<open>extractAt\<close> and, for a delta by reference, \<open>extract\<close> call each other without a
  bound, so the function is partial: \<open>None\<close> is a call that does not return (the calls
  nest without end, until the runtime gives up on the stack). The call
  of \<open>extract\<close> is written out: \<open>findObject\<close>, then \<open>extractAt\<close>. The buffers for the
  data and for the patch are made with the size \<open>objsize\<close> the entry declares, before
  anything is read into them: \<open>make\<close> fails, and the run ends in a panic, where the size
  is above the limit \<open>lim\<close>.\<close>

partial_function (option) extractAt ::
    "zlib \<Rightarrow> nat \<Rightarrow> 64 word \<Rightarrow> PackReader \<Rightarrow>
       ((nat \<times> byte list \<times> error option) outcome \<times> PackReader) option" where
  "extractAt zl lim off pk =
     (let ((bs, err), pk) = pack_ReadAt pk 16 (sint off);
          buf = fill (replicate 16 0) bs;
          err = (if err = Some EOF \<or> err = Some ErrUnexpectedEOF then None else err)
      in if err \<noteq> None then Some (Return (0, [], err), pk)
         else
           let (varint, n) = Uvarint buf;
               objsize = (push_bit 4 (drop_bit 7 varint) OR (varint AND 0xF) :: 64 word);
               objtype = unat (drop_bit 4 varint AND 7)
           in if objtype = pkCommit \<or> objtype = pkTree \<or> objtype = pkBlob \<or> objtype = pkTag then
                (if make_fails lim (sint objsize) then Some (Panic makeslice_panic, pk)
                 else
                   let ((data, err), pk) = pack_readCompressed zl pk (sint (off + of_int n)) (nat (sint objsize))
                   in Some (Return (objtype, data, err), pk))
              else if objtype = pkRefDelta then
                (let ((parent, err), pk) = pack_ReadAt pk 20 (sint (off + of_int n))
                 in if err \<noteq> None then Some (Return (0, [], err), pk)
                    else if make_fails lim (sint objsize) then Some (Panic makeslice_panic, pk)
                    else
                      let ((bs, err), pk) = pack_readCompressed zl pk (sint (off + of_int n + 20)) (nat (sint objsize));
                          patch = fill (replicate (nat (sint objsize)) 0) bs;
                          ((boff, err), pk) = findObject parent pk
                      in if err \<noteq> None then Some (applyDelta (Return (0, [], err)) patch, pk)
                         else
                           Option.bind (extractAt zl lim boff pk)
                             (\<lambda>(base, pk). Some (applyDelta base patch, pk)))
              else if objtype = pkOfsDelta then
                (let ((parentOff, n2, err), pk) = readVaroffset pk (sint (off + of_int n))
                 in if err \<noteq> None then Some (Return (objtype, [], err), pk)
                    else if make_fails lim (sint objsize) then Some (Panic makeslice_panic, pk)
                    else
                      let ((bs, err), pk) = pack_readCompressed zl pk (sint (off + of_int (n + n2))) (nat (sint objsize));
                          patch = fill (replicate (nat (sint objsize)) 0) bs
                      in Option.bind (extractAt zl lim (off - parentOff) pk)
                           (\<lambda>(base, pk). Some (applyDelta base patch, pk)))
              else Some (Return (0, [], Some errInvalidPackEntryType), pk))"

text \<open>\<open>extract\<close> extracts the raw contents of an object (the name carries a prime here,
  \<open>extract\<close> being a keyword of Isabelle).\<close>

definition extract' :: "zlib \<Rightarrow> nat \<Rightarrow> Hash \<Rightarrow> PackReader \<Rightarrow>
    ((nat \<times> byte list \<times> error option) outcome \<times> PackReader) option" where
  "extract' zl lim h pk =
     (let ((off, err), pk) = findObject h pk
      in if err \<noteq> None then Some (Return (0, [], err), pk)
         else extractAt zl lim off pk)"

subsection \<open>The chain of bases of an entry\<close>

text \<open>What \<open>extractAt\<close> does at the entry at \<open>off\<close> before it calls itself: it ends with
  a result (\<open>Ends\<close>: an entry that is no delta, an invalid entry, or a failed read or
  lookup of the base), it panics in \<open>make\<close> (\<open>Fails\<close>), or it goes on at the offset of
  the base: the base of a delta by offset, or the offset \<open>findObject\<close> returns for the
  base of a delta by reference.\<close>

datatype step = Ends | Fails | Base "64 word"

definition entry_step :: "nat \<Rightarrow> PackReader \<Rightarrow> 64 word \<Rightarrow> step" where
  "entry_step lim pk off =
     (let ((bs, err), pk) = pack_ReadAt pk 16 (sint off);
          buf = fill (replicate 16 0) bs;
          (varint, n) = Uvarint buf;
          objsize = (push_bit 4 (drop_bit 7 varint) OR (varint AND 0xF) :: 64 word);
          objtype = unat (drop_bit 4 varint AND 7)
      in if objtype = pkCommit \<or> objtype = pkTree \<or> objtype = pkBlob \<or> objtype = pkTag then
           (if make_fails lim (sint objsize) then Fails else Ends)
         else if objtype = pkRefDelta then
           (let ((parent, err), pk) = pack_ReadAt pk 20 (sint (off + of_int n))
            in if err \<noteq> None then Ends
               else if make_fails lim (sint objsize) then Fails
               else
                 let ((boff, err), pk) = findObject parent pk
                 in if err \<noteq> None then Ends else Base boff)
         else if objtype = pkOfsDelta then
           (let ((parentOff, n2, err), pk) = readVaroffset pk (sint (off + of_int n))
            in if err \<noteq> None then Ends
               else if make_fails lim (sint objsize) then Fails
               else Base (off - parentOff))
         else Ends)"

text \<open>How the chain of bases that starts at \<open>off\<close> ends, if it does within \<open>k\<close> entries:
  in a result or in a panic.\<close>

datatype ending = Returns | Panics

fun chain_end :: "nat \<Rightarrow> nat \<Rightarrow> PackReader \<Rightarrow> 64 word \<Rightarrow> ending option" where
  "chain_end 0 lim pk off = None"
| "chain_end (Suc k) lim pk off =
     (case entry_step lim pk off of
        Ends \<Rightarrow> Some Returns
      | Fails \<Rightarrow> Some Panics
      | Base b \<Rightarrow> chain_end k lim pk b)"

fun kind_of :: "'a outcome \<Rightarrow> ending" where
  "kind_of (Return r) = Returns"
| "kind_of (Panic m) = Panics"







text \<open>A zlib reader to run the examples with: it knows the empty stream only.\<close>

definition zlib_empty :: zlib where
  "zlib_empty input =
     (if take 8 input = [0x78, 0x9C, 0x03, 0x00, 0x00, 0x00, 0x00, 0x01]
      then Inr ([], EOF) else Inl (ZlibError 0))"

subsection \<open>A pack of one object\<close>

text \<open>A pack that holds the empty blob at offset 12, and its index: the hash of the empty
  blob starts with the byte \<open>0xE6\<close>, so the fanout is 0 below 230 and 1 from there on.\<close>

definition hash_empty_blob :: Hash where
  "hash_empty_blob = [0xE6, 0x9D, 0xE2, 0x9B, 0xB2, 0xD1, 0xD6, 0x43, 0x4B, 0x8B,
                      0x29, 0xAE, 0x77, 0x5A, 0xD8, 0xC2, 0xE4, 0x8C, 0x53, 0x91]"

definition pack1 :: "byte list" where
  "pack1 = [0x50, 0x41, 0x43, 0x4B, 0, 0, 0, 2, 0, 0, 0, 1,
            0x30, 0x78, 0x9C, 0x03, 0x00, 0x00, 0x00, 0x00, 0x01]
           @ replicate 20 0x11"

definition idx1_tables :: "byte list" where
  "idx1_tables = hash_empty_blob @ [0, 0, 0, 0] @ [0, 0, 0, 12]
                 @ replicate 20 0x11 @ replicate 20 0x22"

definition idx1_fanout :: "byte list" where
  "idx1_fanout = concat (replicate 230 [0, 0, 0, 0]) @ concat (replicate 26 [0, 0, 0, 1])"

definition idx1 :: "byte list" where
  "idx1 = [0xFF, 0x74, 0x4F, 0x63, 0, 0, 0, 2] @ idx1_fanout @ idx1_tables"

definition pk1 :: PackReader where
  "pk1 = \<lparr> version = 2, pack = \<lparr> sr_data = pack1, sr_off = 0 \<rparr>,
           idx = \<lparr> sr_data = idx1, sr_off = 0 \<rparr>,
           idxFanout = replicate 230 0 @ replicate 26 1 \<rparr>"

section \<open>Tree parsing\<close>


lemma IndexByte_append_hit:
  "c \<notin> set xs \<Longrightarrow> IndexByte (xs @ c # ys) c = int (length xs)"
  by (induction xs) (auto simp: Let_def)

lemma digit_val_octal: "octal_digit c \<Longrightarrow> digit_val c = Some (unat c - 0x30) \<and> unat c - 0x30 < 8"
  unfolding octal_digit_def digit_val_def
  by (auto simp: word_le_nat_alt)

lemma foldl_octal_mono: "n \<le> foldl (\<lambda>n c. n * 8 + (unat c - 0x30)) n ds"
proof (induction ds arbitrary: n)
  case Nil
  show ?case by simp
next
  case (Cons c ds)
  have "n \<le> n * 8 + (unat c - 0x30)" by simp
  also have "\<dots> \<le> foldl (\<lambda>n c. n * 8 + (unat c - 0x30)) (n * 8 + (unat c - 0x30)) ds"
    by (rule Cons.IH)
  finally show ?case by simp
qed

lemma ParseUint_loop_octal:
  "list_all octal_digit ds \<Longrightarrow> foldl (\<lambda>n c. n * 8 + (unat c - 0x30)) n ds \<le> 65535 \<Longrightarrow>
   ParseUint_loop 8 65535 n ds = Inr (foldl (\<lambda>n c. n * 8 + (unat c - 0x30)) n ds)"
proof (induction ds arbitrary: n)
  case Nil
  show ?case by simp
next
  case (Cons c ds)
  let ?n' = "n * 8 + (unat c - 0x30)"
  have d: "digit_val c = Some (unat c - 0x30)" "unat c - 0x30 < 8"
    using Cons.prems(1) digit_val_octal by auto
  have le: "?n' \<le> 65535"
    using foldl_octal_mono [of ?n' ds] Cons.prems(2) by simp
  then have nle: "n \<le> 65535" by linarith
  have "ParseUint_loop 8 65535 ?n' ds = Inr (foldl (\<lambda>n c. n * 8 + (unat c - 0x30)) ?n' ds)"
    using Cons.IH [of ?n'] Cons.prems by simp
  then show ?case using d le nle by simp
qed




lemma octal_digit_not_sp: "list_all octal_digit md \<Longrightarrow> 0x20 \<notin> set md \<and> 0 \<notin> set md"
  by (auto simp: list_all_iff octal_digit_def)

lemma drop_len_append: "n = length xs \<Longrightarrow> drop n (xs @ ys) = ys"
  by simp

lemma parseTree_loop_entry:
  assumes "entry_ok (md, name, h)"
  shows "parseTree_loop t (entry_bytes (md, name, h) @ rest) =
         parseTree_loop (t\<lparr> Entries := Entries t @ [entry_elem (md, name, h)] \<rparr>) rest"
proof -
  let ?s = "md @ 0x20 # name @ 0 # h @ rest"
  from assms have len: "length md = 6" and dig: "list_all octal_digit md"
    and val: "octal_val md < 65536" and nm: "0 \<notin> set name" and lh: "length h = 20"
    by (auto simp: entry_ok_def)
  have sp: "IndexByte ?s 0x20 = 6"
    using IndexByte_append_hit [of "0x20" md] octal_digit_not_sp [OF dig] len by simp
  have "0 \<notin> set (md @ 0x20 # name)"
    using octal_digit_not_sp [OF dig] nm by auto
  then have "IndexByte ((md @ 0x20 # name) @ 0 # h @ rest) 0 = int (length (md @ 0x20 # name))"
    by (rule IndexByte_append_hit)
  then have nul: "IndexByte ?s 0 = 7 + int (length name)"
    using len by simp
  have pu: "ParseUint md 8 16 = Inr (octal_val md)"
    using ParseUint_loop_octal [of md 0] dig val len
    by (auto simp: ParseUint_def octal_val_def)
  have nm': "take (length name) (drop 7 ?s) = name"
    using len by simp
  have hs: "take 20 (drop (8 + length name) ?s) = h"
    using len lh by simp
  have "22 + length name = length (0x20 # name @ 0 # h)"
    using lh by simp
  then have "drop (22 + length name) ((0x20 # name @ 0 # h) @ rest) = rest"
    by (rule drop_len_append)
  then have rs: "drop (22 + length name) (0x20 # name @ 0 # h @ rest) = rest"
    by simp
  have natnul: "nat (7 + int (length name)) = 7 + length name" by simp
  show ?thesis
    apply (subst parseTree_loop.simps)
    apply (simp only: entry_bytes_def prod.case append.simps append_assoc)
    apply (simp only: sp nul Let_def)
    apply (simp add: pu nm' hs rs natnul entry_elem_def len lh)
    done
qed




lemma parseTree_loop_entries:
  "list_all entry_ok es \<Longrightarrow>
   parseTree_loop t (tree_payload es @ rest) =
   parseTree_loop (t\<lparr> Entries := Entries t @ map entry_elem es \<rparr>) rest"
proof (induction es arbitrary: t)
  case Nil
  show ?case by (simp add: tree_payload_def)
next
  case (Cons e es)
  obtain md name h where e: "e = (md, name, h)" by (cases e)
  have ok: "entry_ok (md, name, h)" and oks: "list_all entry_ok es"
    using Cons.prems e by auto
  have "parseTree_loop t (tree_payload (e # es) @ rest) =
        parseTree_loop t (entry_bytes (md, name, h) @ (tree_payload es @ rest))"
    by (simp add: tree_payload_def e)
  also have "\<dots> = parseTree_loop (t\<lparr> Entries := Entries t @ [entry_elem (md, name, h)] \<rparr>)
                      (tree_payload es @ rest)"
    by (rule parseTree_loop_entry [OF ok])
  also have "\<dots> = parseTree_loop (t\<lparr> Entries := Entries t @ [entry_elem (md, name, h)] \<rparr>
                        \<lparr> Entries := Entries (t\<lparr> Entries := Entries t @ [entry_elem (md, name, h)] \<rparr>) @ map entry_elem es \<rparr>) rest"
    by (rule Cons.IH [OF oks])
  finally show ?case by (simp add: e)
qed

lemma parseTree_loop_Nil: "parseTree_loop t [] = (t, None)"
  by (simp add: parseTree_loop.simps)

lemma parseTree_loop_bad_space:
  "bad \<noteq> [] \<Longrightarrow> IndexByte bad 0x20 \<noteq> 6 \<Longrightarrow> parseTree_loop t bad = (t, Some errBadTreeData)"
  by (subst parseTree_loop.simps) (simp add: Let_def)

lemma parseTree_entries:
  "list_all entry_ok es \<Longrightarrow>
   parseTree (tree_payload es) = (\<lparr> Tree_Hash = zeroHash, Entries = map entry_elem es \<rparr>, None)"
  using parseTree_loop_entries [of es "\<lparr> Tree_Hash = zeroHash, Entries = [] \<rparr>" "[]"]
  by (simp add: parseTree_def parseTree_loop_Nil)

lemma parseTree_2_loop_entry:
  assumes "entry_ok16 (md, name, h)"
  shows "parseTree_2_loop t (entry_bytes (md, name, h) @ rest) =
         parseTree_2_loop (t\<lparr> Entries := Entries t @ [entry_elem (md, name, h)] \<rparr>) rest"
proof -
  let ?s = "md @ 0x20 # name @ 0 # h @ rest"
  from assms have len: "1 \<le> length md" and dig: "list_all octal_digit md"
    and val: "octal_val md < 65536" and nm: "0 \<notin> set name" and lh: "length h = 20"
    by (auto simp: entry_ok16_def)
  have ne: "md \<noteq> []" using len by auto
  have sne: "?s \<noteq> []" by simp
  have sp: "IndexByte ?s 0x20 = int (length md)"
    using IndexByte_append_hit [of "0x20" md] octal_digit_not_sp [OF dig] by simp
  have "0 \<notin> set (md @ 0x20 # name)"
    using octal_digit_not_sp [OF dig] nm by auto
  then have "IndexByte ((md @ 0x20 # name) @ 0 # h @ rest) 0 = int (length (md @ 0x20 # name))"
    by (rule IndexByte_append_hit)
  then have nul: "IndexByte ?s 0 = int (length md + 1 + length name)"
    by simp
  have pu: "ParseUint md 8 16 = Inr (octal_val md)"
    using ParseUint_loop_octal [of md 0] dig val ne
    by (auto simp: ParseUint_def octal_val_def)
  have n1: "nat (int (length md)) = length md"
    and n2: "nat (int (length md + 1 + length name)) = length md + 1 + length name"
    by simp_all
  have tk: "take (length md) ?s = md" by simp
  have "length md + 1 = length (md @ [0x20])" by simp
  then have "drop (length md + 1) ((md @ [0x20]) @ name @ 0 # h @ rest) = name @ 0 # h @ rest"
    by (rule drop_len_append)
  then have d1: "drop (length md + 1) ?s = name @ 0 # h @ rest" by simp
  have nm': "take (length md + 1 + length name - (length md + 1)) (drop (length md + 1) ?s) = name"
    unfolding d1 by simp
  have "length md + 1 + length name + 1 = length (md @ 0x20 # name @ [0])" by simp
  then have "drop (length md + 1 + length name + 1) ((md @ 0x20 # name @ [0]) @ h @ rest) = h @ rest"
    by (rule drop_len_append)
  then have d2: "drop (length md + 1 + length name + 1) ?s = h @ rest" by simp
  have hs: "take 20 (drop (length md + 1 + length name + 1) ?s) = h"
    unfolding d2 using lh by simp
  have "length md + 1 + length name + 21 = length (md @ 0x20 # name @ 0 # h)"
    using lh by simp
  then have "drop (length md + 1 + length name + 21) ((md @ 0x20 # name @ 0 # h) @ rest) = rest"
    by (rule drop_len_append)
  then have rs: "drop (length md + 1 + length name + 21) ?s = rest"
    by simp
  have g1: "\<not> int (length md + 1 + length name) < int (length md)" by simp
  have g2: "\<not> int (length ?s) \<le> int (length md + 1 + length name) + 20"
    using lh by simp
  have g3: "\<not> int (length md) < 0" by simp
  have "parseTree_2_loop t ?s =
        parseTree_2_loop (t\<lparr> Entries := Entries t @ [entry_elem (md, name, h)] \<rparr>) rest"
    apply (subst parseTree_2_loop.simps)
    apply (simp only: sp nul Let_def sne if_False g1 g2 g3 simp_thms n1 n2)
    apply (simp only: tk nm' hs rs pu sum.case)
    apply (simp add: entry_elem_def)
    done
  then show ?thesis by (simp add: entry_bytes_def)
qed

lemma parseTree_2_loop_entries:
  "list_all entry_ok16 es \<Longrightarrow>
   parseTree_2_loop t (tree_payload es @ rest) =
   parseTree_2_loop (t\<lparr> Entries := Entries t @ map entry_elem es \<rparr>) rest"
proof (induction es arbitrary: t)
  case Nil
  show ?case by (simp add: tree_payload_def)
next
  case (Cons e es)
  obtain md name h where e: "e = (md, name, h)" by (cases e)
  have ok: "entry_ok16 (md, name, h)" and oks: "list_all entry_ok16 es"
    using Cons.prems e by auto
  have "parseTree_2_loop t (tree_payload (e # es) @ rest) =
        parseTree_2_loop t (entry_bytes (md, name, h) @ (tree_payload es @ rest))"
    by (simp add: tree_payload_def e)
  also have "\<dots> = parseTree_2_loop (t\<lparr> Entries := Entries t @ [entry_elem (md, name, h)] \<rparr>)
                      (tree_payload es @ rest)"
    by (rule parseTree_2_loop_entry [OF ok])
  also have "\<dots> = parseTree_2_loop (t\<lparr> Entries := Entries t @ [entry_elem (md, name, h)] \<rparr>
                        \<lparr> Entries := Entries (t\<lparr> Entries := Entries t @ [entry_elem (md, name, h)] \<rparr>) @ map entry_elem es \<rparr>) rest"
    by (rule Cons.IH [OF oks])
  finally show ?case by (simp add: e)
qed

lemma parseTree_2_loop_Nil: "parseTree_2_loop t [] = Return (t, None)"
  by (simp add: parseTree_2_loop.simps)

lemma parseTree_2_entries:
  "list_all entry_ok16 es \<Longrightarrow>
   parseTree_2 (tree_payload es) =
     Return (\<lparr> Tree_Hash = zeroHash, Entries = map entry_elem es \<rparr>, None)"
  using parseTree_2_loop_entries [of es "\<lparr> Tree_Hash = zeroHash, Entries = [] \<rparr>" "[]"]
  by (simp add: parseTree_2_def parseTree_2_loop_Nil)

lemma ParseUint_loop_octal_range:
  "list_all octal_digit ds \<Longrightarrow> n \<le> 65535 \<Longrightarrow>
   65535 < foldl (\<lambda>n c. n * 8 + (unat c - 0x30)) n ds \<Longrightarrow>
   ParseUint_loop 8 65535 n ds = Inl ErrRange"
proof (induction ds arbitrary: n)
  case Nil
  then show ?case by simp
next
  case (Cons c ds)
  let ?n' = "n * 8 + (unat c - 0x30)"
  have d: "digit_val c = Some (unat c - 0x30)" "unat c - 0x30 < 8"
    using Cons.prems(1) digit_val_octal by auto
  show ?case
  proof (cases "?n' \<le> 65535")
    case True
    have "ParseUint_loop 8 65535 ?n' ds = Inl ErrRange"
      using Cons.IH [of ?n'] Cons.prems True by simp
    then show ?thesis using d True Cons.prems(2) by simp
  next
    case False
    then show ?thesis using d Cons.prems(2) by simp
  qed
qed

lemma ParseUint_octal_range:
  "list_all octal_digit md \<Longrightarrow> 65536 \<le> octal_val md \<Longrightarrow> ParseUint md 8 16 = Inl ErrRange"
  using ParseUint_loop_octal_range [of md 0]
  by (auto simp: ParseUint_def octal_val_def)

lemma entry_reject_facts:
  assumes dig: "list_all octal_digit md" and nm: "0 \<notin> set name" and lh: "length h = 20"
  shows "IndexByte (md @ 0x20 # name @ 0 # h @ rest) 0x20 = int (length md)"
    and "IndexByte (md @ 0x20 # name @ 0 # h @ rest) 0 = int (length md + 1 + length name)"
proof -
  show "IndexByte (md @ 0x20 # name @ 0 # h @ rest) 0x20 = int (length md)"
    using IndexByte_append_hit [of "0x20" md] octal_digit_not_sp [OF dig] by simp
  have "0 \<notin> set (md @ 0x20 # name)"
    using octal_digit_not_sp [OF dig] nm by auto
  then have "IndexByte ((md @ 0x20 # name) @ 0 # h @ rest) 0 = int (length (md @ 0x20 # name))"
    by (rule IndexByte_append_hit)
  then show "IndexByte (md @ 0x20 # name @ 0 # h @ rest) 0 = int (length md + 1 + length name)"
    by simp
qed

lemma parseTree_2_loop_range:
  assumes dig: "list_all octal_digit md" and val: "65536 \<le> octal_val md"
    and nm: "0 \<notin> set name" and lh: "length h = 20"
  shows "parseTree_2_loop t (entry_bytes (md, name, h) @ rest) = Return (t, Some ErrRange)"
proof -
  let ?s = "md @ 0x20 # name @ 0 # h @ rest"
  have sne: "?s \<noteq> []" by simp
  note sp = entry_reject_facts(1) [OF dig nm lh, of rest]
  note nul = entry_reject_facts(2) [OF dig nm lh, of rest]
  have pu: "ParseUint md 8 16 = Inl ErrRange"
    by (rule ParseUint_octal_range [OF dig val])
  have n1: "nat (int (length md)) = length md" by simp
  have tk: "take (length md) ?s = md" by simp
  have g1: "\<not> int (length md + 1 + length name) < int (length md)" by simp
  have g2: "\<not> int (length ?s) \<le> int (length md + 1 + length name) + 20"
    using lh by simp
  have g3: "\<not> int (length md) < 0" by simp
  have "parseTree_2_loop t ?s = Return (t, Some ErrRange)"
    apply (subst parseTree_2_loop.simps)
    apply (simp only: sp nul Let_def sne if_False g1 g2 g3 simp_thms n1)
    apply (simp only: tk pu sum.case)
    done
  then show ?thesis by (simp add: entry_bytes_def)
qed

lemma parseTree_loop_range:
  assumes len: "length md = 6" and dig: "list_all octal_digit md" and val: "65536 \<le> octal_val md"
    and nm: "0 \<notin> set name" and lh: "length h = 20"
  shows "parseTree_loop t (entry_bytes (md, name, h) @ rest) = (t, Some ErrRange)"
proof -
  let ?s = "md @ 0x20 # name @ 0 # h @ rest"
  have sne: "?s \<noteq> []" by simp
  note sp = entry_reject_facts(1) [OF dig nm lh, of rest]
  note nul = entry_reject_facts(2) [OF dig nm lh, of rest]
  have pu: "ParseUint md 8 16 = Inl ErrRange"
    by (rule ParseUint_octal_range [OF dig val])
  have n1: "nat (int (length md)) = length md" by simp
  have tk: "take (length md) ?s = md" by simp
  have g0: "\<not> int (length md) \<noteq> 6" using len by simp
  have g1: "\<not> int (length md + 1 + length name) < int (length md)" by simp
  have g2: "\<not> int (length ?s) \<le> int (length md + 1 + length name) + 20"
    using lh by simp
  have "parseTree_loop t ?s = (t, Some ErrRange)"
    apply (subst parseTree_loop.simps)
    apply (simp only: sp nul Let_def sne if_False g0 g1 g2 simp_thms n1)
    apply (simp only: tk pu sum.case)
    done
  then show ?thesis by (simp add: entry_bytes_def)
qed

text \<open>
  Claim C6, as the code has it. Both versions of \<open>parseTree\<close> read the mode field with
  \<open>ParseUint(.., 8, 16)\<close>, into 16 bits. The version without the check of the position of
  the first space takes every payload whose entries have a mode field of one to six octal
  digits with a value below \<open>2^16\<close>, a space, a name without NUL, a NUL and a hash of 20
  bytes, and returns the entries; the version with the check does so for the entries whose
  mode field has six digits. An entry whose mode field has a value of \<open>2^16\<close> or more is
  rejected with the range error of \<open>ParseUint\<close>, whatever follows it.
\<close>

theorem parseTree_modes_of_16_bits:
  "(list_all entry_ok16 es \<longrightarrow>
      parseTree_2 (tree_payload es) =
        Return (\<lparr> Tree_Hash = zeroHash, Entries = map entry_elem es \<rparr>, None)) \<and>
   (list_all entry_ok es \<longrightarrow>
      parseTree (tree_payload es) =
        (\<lparr> Tree_Hash = zeroHash, Entries = map entry_elem es \<rparr>, None)) \<and>
   (list_all entry_ok16 es \<and> list_all octal_digit md \<and> 65536 \<le> octal_val md \<and>
    0 \<notin> set name \<and> length h = 20 \<longrightarrow>
      parseTree_2 (tree_payload es @ entry_bytes (md, name, h) @ rest) =
        Return (\<lparr> Tree_Hash = zeroHash, Entries = map entry_elem es \<rparr>, Some ErrRange)) \<and>
   (list_all entry_ok es \<and> length md = 6 \<and> list_all octal_digit md \<and> 65536 \<le> octal_val md \<and>
    0 \<notin> set name \<and> length h = 20 \<longrightarrow>
      parseTree (tree_payload es @ entry_bytes (md, name, h) @ rest) =
        (\<lparr> Tree_Hash = zeroHash, Entries = map entry_elem es \<rparr>, Some ErrRange))"
proof (intro conjI impI)
  assume "list_all entry_ok16 es"
  then show "parseTree_2 (tree_payload es) =
        Return (\<lparr> Tree_Hash = zeroHash, Entries = map entry_elem es \<rparr>, None)"
    by (rule parseTree_2_entries)
next
  assume "list_all entry_ok es"
  then show "parseTree (tree_payload es) =
        (\<lparr> Tree_Hash = zeroHash, Entries = map entry_elem es \<rparr>, None)"
    by (rule parseTree_entries)
next
  assume a: "list_all entry_ok16 es \<and> list_all octal_digit md \<and> 65536 \<le> octal_val md \<and>
    0 \<notin> set name \<and> length h = 20"
  have "parseTree_2 (tree_payload es @ entry_bytes (md, name, h) @ rest) =
        parseTree_2_loop \<lparr> Tree_Hash = zeroHash, Entries = [] @ map entry_elem es \<rparr>
          (entry_bytes (md, name, h) @ rest)"
    unfolding parseTree_2_def using a by (simp add: parseTree_2_loop_entries)
  also have "\<dots> = Return (\<lparr> Tree_Hash = zeroHash, Entries = [] @ map entry_elem es \<rparr>, Some ErrRange)"
    using a by (intro parseTree_2_loop_range) simp_all
  finally show "parseTree_2 (tree_payload es @ entry_bytes (md, name, h) @ rest) =
        Return (\<lparr> Tree_Hash = zeroHash, Entries = map entry_elem es \<rparr>, Some ErrRange)"
    by simp
next
  assume a: "list_all entry_ok es \<and> length md = 6 \<and> list_all octal_digit md \<and>
    65536 \<le> octal_val md \<and> 0 \<notin> set name \<and> length h = 20"
  have "parseTree (tree_payload es @ entry_bytes (md, name, h) @ rest) =
        parseTree_loop \<lparr> Tree_Hash = zeroHash, Entries = [] @ map entry_elem es \<rparr>
          (entry_bytes (md, name, h) @ rest)"
    unfolding parseTree_def using a by (simp add: parseTree_loop_entries)
  also have "\<dots> = (\<lparr> Tree_Hash = zeroHash, Entries = [] @ map entry_elem es \<rparr>, Some ErrRange)"
    using a by (intro parseTree_loop_range) simp_all
  finally show "parseTree (tree_payload es @ entry_bytes (md, name, h) @ rest) =
        (\<lparr> Tree_Hash = zeroHash, Entries = map entry_elem es \<rparr>, Some ErrRange)"
    by simp
qed

lemma entry_ok16_d: "entry_ok16 (bytes_of ''40000'', bytes_of ''d'', hash_a)"
  by (simp add: entry_ok16_def bytes_of_def hash_a_def octal_digit_def octal_val_def)

lemma entry_ok_a: "entry_ok (bytes_of ''100644'', bytes_of ''a'', hash_a)"
  by (simp add: entry_ok_def bytes_of_def hash_a_def octal_digit_def octal_val_def)

lemma entry_ok_b: "entry_ok (bytes_of ''100644'', bytes_of ''b'', hash_b)"
  by (simp add: entry_ok_def bytes_of_def hash_b_def octal_digit_def octal_val_def)

lemma entry_ok_16: "entry_ok e \<Longrightarrow> entry_ok16 e"
  by (cases e) (simp add: entry_ok_def entry_ok16_def)

lemma mode_200000: "list_all octal_digit (bytes_of ''200000'') \<and> 65536 \<le> octal_val (bytes_of ''200000'')
   \<and> length (bytes_of ''200000'') = 6"
  by (simp add: bytes_of_def octal_digit_def octal_val_def)

theorem parseTree_modes_of_16_bits_witness:
  "list_all entry_ok16 [(bytes_of ''40000'', bytes_of ''d'', hash_a)] \<and>
   parseTree_2 (tree_payload [(bytes_of ''40000'', bytes_of ''d'', hash_a)]) =
     Return (\<lparr> Tree_Hash = zeroHash,
        Entries = map entry_elem [(bytes_of ''40000'', bytes_of ''d'', hash_a)] \<rparr>, None) \<and>
   list_all entry_ok [(bytes_of ''100644'', bytes_of ''a'', hash_a)] \<and>
   parseTree (tree_payload [(bytes_of ''100644'', bytes_of ''a'', hash_a)]) =
     (\<lparr> Tree_Hash = zeroHash,
        Entries = map entry_elem [(bytes_of ''100644'', bytes_of ''a'', hash_a)] \<rparr>, None) \<and>
   list_all entry_ok16 [(bytes_of ''100644'', bytes_of ''a'', hash_a)] \<and>
   list_all octal_digit (bytes_of ''200000'') \<and> 65536 \<le> octal_val (bytes_of ''200000'') \<and>
   length (bytes_of ''200000'') = 6 \<and> 0 \<notin> set (bytes_of ''b'') \<and> length hash_b = 20 \<and>
   parseTree_2 (tree_payload [(bytes_of ''100644'', bytes_of ''a'', hash_a)]
       @ entry_bytes (bytes_of ''200000'', bytes_of ''b'', hash_b) @ []) =
     Return (\<lparr> Tree_Hash = zeroHash,
        Entries = map entry_elem [(bytes_of ''100644'', bytes_of ''a'', hash_a)] \<rparr>, Some ErrRange) \<and>
   parseTree (tree_payload [(bytes_of ''100644'', bytes_of ''a'', hash_a)]
       @ entry_bytes (bytes_of ''200000'', bytes_of ''b'', hash_b) @ []) =
     (\<lparr> Tree_Hash = zeroHash,
        Entries = map entry_elem [(bytes_of ''100644'', bytes_of ''a'', hash_a)] \<rparr>, Some ErrRange)"
proof -
  have d: "list_all entry_ok16 [(bytes_of ''40000'', bytes_of ''d'', hash_a)]"
    by (simp add: entry_ok16_d)
  have a: "list_all entry_ok [(bytes_of ''100644'', bytes_of ''a'', hash_a)]"
    by (simp add: entry_ok_a)
  have a16: "list_all entry_ok16 [(bytes_of ''100644'', bytes_of ''a'', hash_a)]"
    by (simp add: entry_ok_16 [OF entry_ok_a])
  have b: "0 \<notin> set (bytes_of ''b'') \<and> length hash_b = 20"
    by (simp add: bytes_of_def hash_b_def)
  show ?thesis
    using parseTree_modes_of_16_bits [of "[(bytes_of ''40000'', bytes_of ''d'', hash_a)]"]
      parseTree_modes_of_16_bits [of "[(bytes_of ''100644'', bytes_of ''a'', hash_a)]"
        "bytes_of ''200000''" "bytes_of ''b''" hash_b "[]"]
      d a a16 b mode_200000
    by blast
qed

text \<open>
  Claim C6 as stated fails: the entry \<open>200000 a\<close> has a mode field of six octal digits and
  is rejected by both versions, its value \<open>2^16\<close> not fitting the 16 bits of a mode.
\<close>

theorem parseTree_mode_above_16_bits_rejected:
  "parseTree (bytes_of ''200000 a'' @ [0] @ hash_a) =
     (\<lparr> Tree_Hash = zeroHash, Entries = [] \<rparr>, Some ErrRange) \<and>
   parseTree_2 (bytes_of ''200000 a'' @ [0] @ hash_a) =
     Return (\<lparr> Tree_Hash = zeroHash, Entries = [] \<rparr>, Some ErrRange)"
  by (simp add: parseTree_def parseTree_2_def bytes_of_def hash_a_def parseTree_loop.simps
        parseTree_2_loop.simps ParseUint_def digit_val_def)

text \<open>
  The two versions differ on a mode field of fewer than six digits: the directory entry
  \<open>40000 d\<close> is rejected by the version that checks the position of the first space, and
  parsed by the other.
\<close>

lemma parseTree_versions_differ:
  "parseTree (tree_payload [(bytes_of ''40000'', bytes_of ''d'', hash_a)]) =
     (\<lparr> Tree_Hash = zeroHash, Entries = [] \<rparr>, Some errBadTreeData) \<and>
   parseTree_2 (tree_payload [(bytes_of ''40000'', bytes_of ''d'', hash_a)]) =
     Return (\<lparr> Tree_Hash = zeroHash,
        Entries = [\<lparr> Elem_Name = bytes_of ''d'', Elem_Mode = os_ModeDir, Elem_Hash = hash_a \<rparr>] \<rparr>, None)"
proof -
  have "parseTree (tree_payload [(bytes_of ''40000'', bytes_of ''d'', hash_a)]) =
     (\<lparr> Tree_Hash = zeroHash, Entries = [] \<rparr>, Some errBadTreeData)"
    by (simp add: parseTree_def tree_payload_def entry_bytes_def bytes_of_def parseTree_loop.simps)
  moreover have "entry_elem (bytes_of ''40000'', bytes_of ''d'', hash_a) =
      \<lparr> Elem_Name = bytes_of ''d'', Elem_Mode = os_ModeDir, Elem_Hash = hash_a \<rparr>"
    by (simp add: entry_elem_def octal_val_def bytes_of_def osMode_def ModeRegular_def
        ModeDir_def ModeSymlink_def)
  ultimately show ?thesis
    using parseTree_2_entries [of "[(bytes_of ''40000'', bytes_of ''d'', hash_a)]"] entry_ok16_d
    by simp
qed

text \<open>
  Claim C7, as the code has it. \<open>parseTree\<close> checks no ordering: for every list of
  well-formed entries, in whatever order, it returns without error the tree whose entries
  are those of the payload, in the order of the payload.
\<close>

theorem parseTree_keeps_payload_order:
  "list_all entry_ok es \<Longrightarrow>
   parseTree (tree_payload es) = (\<lparr> Tree_Hash = zeroHash, Entries = map entry_elem es \<rparr>, None)"
  by (rule parseTree_entries)

theorem parseTree_keeps_payload_order_witness:
  "list_all entry_ok [(bytes_of ''100644'', bytes_of ''b'', hash_b), (bytes_of ''100644'', bytes_of ''a'', hash_a)] \<and>
   parseTree (tree_payload [(bytes_of ''100644'', bytes_of ''b'', hash_b), (bytes_of ''100644'', bytes_of ''a'', hash_a)]) =
     (\<lparr> Tree_Hash = zeroHash,
        Entries = map entry_elem [(bytes_of ''100644'', bytes_of ''b'', hash_b), (bytes_of ''100644'', bytes_of ''a'', hash_a)] \<rparr>, None)"
proof -
  have ok: "list_all entry_ok [(bytes_of ''100644'', bytes_of ''b'', hash_b), (bytes_of ''100644'', bytes_of ''a'', hash_a)]"
    by (simp add: entry_ok_a entry_ok_b)
  show ?thesis
    using parseTree_keeps_payload_order [OF ok] ok by simp
qed

text \<open>
  Claim C7 as stated fails: the payload with the entry \<open>b\<close> before the entry \<open>a\<close> is
  parsed without error, and the entries of the result are not strictly increasing.
\<close>

theorem parseTree_unordered_accepted:
  "snd (parseTree (bytes_of ''100644 b'' @ [0] @ hash_b @ bytes_of ''100644 a'' @ [0] @ hash_a)) = None \<and>
   \<not> strictly_increasing (Entries (fst (parseTree
        (bytes_of ''100644 b'' @ [0] @ hash_b @ bytes_of ''100644 a'' @ [0] @ hash_a))))"
proof -
  have "parseTree (bytes_of ''100644 b'' @ [0] @ hash_b @ bytes_of ''100644 a'' @ [0] @ hash_a) =
        (\<lparr> Tree_Hash = zeroHash, Entries =
            [\<lparr> Elem_Name = [0x62], Elem_Mode = 0x1A4, Elem_Hash = hash_b \<rparr>,
             \<lparr> Elem_Name = [0x61], Elem_Mode = 0x1A4, Elem_Hash = hash_a \<rparr>] \<rparr>, None)"
    by (simp add: parseTree_def bytes_of_def hash_a_def hash_b_def parseTree_loop.simps
        ParseUint_def digit_val_def osMode_def ModeRegular_def)
  then show ?thesis
    by (simp add: sort_key_def os_ModeDir_def)
qed

section \<open>Commit parsing\<close>

text \<open>
  Claim C5, as the code has it. When the header loop, in any state \<open>c\<close>, reads a line
  \<open>word ' ' arg\<close> whose first word is none of \<open>tree\<close>, \<open>parent\<close>, \<open>author\<close>,
  \<open>committer\<close>, the function panics with the message
  \<open>unrecognized commit header word\<close>: the header is neither kept nor skipped.
\<close>

theorem parseCommit_unknown_header_panics:
  assumes "0x20 \<notin> set word" and "0x0A \<notin> set word" and "0x0A \<notin> set arg"
    and "word \<notin> {bytes_of ''tree'', bytes_of ''parent'', bytes_of ''author'', bytes_of ''committer''}"
  shows "parseCommit_loop c (word @ [0x20] @ arg @ [0x0A] @ rest) =
           Panic (bytes_of ''unrecognized commit header '' @ word)"
proof -
  let ?line = "word @ 0x20 # arg"
  let ?s = "?line @ 0x0A # rest"
  have "0x0A \<notin> set ?line" using assms by auto
  then have i: "IndexByte ?s 0x0A = int (length ?line)"
    by (rule IndexByte_append_hit)
  have sp: "IndexByte ?line 0x20 = int (length word)"
    using assms(1) by (rule IndexByte_append_hit)
  have tk: "take (length ?line) ?s = ?line"
    by (rule append_eq_conv_conj [THEN iffD1, THEN conjunct1, symmetric]) (rule refl)
  have s: "word @ [0x20] @ arg @ [0x0A] @ rest = ?s" by simp
  show ?thesis
    unfolding s
    apply (subst parseCommit_loop.simps)
    apply (simp only: i Let_def nat_int tk sp)
    using assms(4) apply simp
    done
qed

theorem parseCommit_unknown_header_panics_witness:
  "0x20 \<notin> set (bytes_of ''encoding'') \<and> 0x0A \<notin> set (bytes_of ''encoding'') \<and>
   0x0A \<notin> set (bytes_of ''ISO-8859-1'') \<and>
   bytes_of ''encoding'' \<notin> {bytes_of ''tree'', bytes_of ''parent'', bytes_of ''author'', bytes_of ''committer''} \<and>
   parseCommit_loop zeroCommit (bytes_of ''encoding'' @ [0x20] @ bytes_of ''ISO-8859-1'' @ [0x0A] @ bytes_of ''Hello'') =
     Panic (bytes_of ''unrecognized commit header '' @ bytes_of ''encoding'')"
proof -
  have h1: "0x20 \<notin> set (bytes_of ''encoding'')" by (simp add: bytes_of_def)
  have h2: "0x0A \<notin> set (bytes_of ''encoding'')" by (simp add: bytes_of_def)
  have h3: "0x0A \<notin> set (bytes_of ''ISO-8859-1'')" by (simp add: bytes_of_def)
  have h4: "bytes_of ''encoding'' \<notin> {bytes_of ''tree'', bytes_of ''parent'', bytes_of ''author'', bytes_of ''committer''}"
    by (simp add: bytes_of_def)
  show ?thesis
    using parseCommit_unknown_header_panics [OF h1 h2 h3 h4, of zeroCommit "bytes_of ''Hello''"] h1 h2 h3 h4
    by blast
qed

text \<open>
  Claim C5 as stated fails: a commit with an \<open>encoding\<close> header after the committer line
  makes \<open>parseCommit\<close> panic.
\<close>

theorem parseCommit_encoding_header_panics:
  "parseCommit (bytes_of (''tree 504094bacb51b85f453161900acc5989f2f38688'' @ [CHR 0x0A] @
       ''author A U Thor <author@example.org> 1356355981 +0100'' @ [CHR 0x0A] @
       ''committer A U Thor <author@example.org> 1356355981 +0100'' @ [CHR 0x0A] @
       ''encoding ISO-8859-1'' @ [CHR 0x0A] @ [CHR 0x0A] @ ''Hello!'' @ [CHR 0x0A])) =
     Panic (bytes_of ''unrecognized commit header encoding'')"
  by (simp add: parseCommit_def zeroCommit_def bytes_of_def parseCommit_loop.simps
      hex_Decode_def fromHexChar_def zeroHash_def parseAuthor_def ParseInt_def Atoi_def
      ParseUint_def digit_val_def Let_def)

section \<open>The delta encoder\<close>


lemma putByte_append:
  "putByte flag b (op, p @ q) = (fst (putByte flag b (op, q)), p @ snd (putByte flag b (op, q)))"
  by (simp add: putByte_def)

lemma refFields_append:
  "refFields off len (op, p @ q) =
     (fst (refFields off len (op, q)), p @ snd (refFields off len (op, q)))"
proof -
  have step: "putByte flag b (x, p @ y) = (fst (putByte flag b (x, y)), p @ snd (putByte flag b (x, y)))"
    for flag b x y by (rule putByte_append)
  have pair: "putByte flag b (fst s, snd s) = putByte flag b s" for flag b s by simp
  show ?thesis
    unfolding refFields_def Let_def
    by (simp only: step pair fst_conv snd_conv)
qed

lemma appendRefTail_append:
  "appendRefTail patch off len = patch @ appendRefTail [] off len"
proof -
  obtain op bs where R: "refFields off len (0x80, [0]) = (op, bs)"
    by (cases "refFields off len (0x80, [0])")
  have "refFields off len (0x80, patch @ [0]) = (op, patch @ bs)"
    using refFields_append [of off len "0x80" patch "[0]"] R by simp
  then have "appendRefTail patch off len = (patch @ bs)[length patch := op]"
    by (simp add: appendRefTail_def)
  moreover have "appendRefTail [] off len = bs[0 := op]"
    using R by (simp add: appendRefTail_def)
  ultimately show ?thesis
    by (simp add: list_update_append)
qed

lemma appendRefData_append:
  "appendRefData patch off len = patch @ appendRefData [] off len"
proof (induction "unat len" arbitrary: len off patch rule: less_induct)
  case less
  show ?case
  proof (cases "len > 0x10000")
    case True
    then have shorter: "unat (len - 0x10000) < unat len"
      by (simp add: unat_sub word_less_nat_alt word_le_nat_alt)
    have "appendRefData patch off len = appendRefData (patch @ copy64k off) (off + 0x10000) (len - 0x10000)"
      using True by (subst appendRefData.simps) simp
    also have "\<dots> = (patch @ copy64k off) @ appendRefData [] (off + 0x10000) (len - 0x10000)"
      by (rule less [OF shorter])
    also have "\<dots> = patch @ appendRefData ([] @ copy64k off) (off + 0x10000) (len - 0x10000)"
      using less [OF shorter, of "[] @ copy64k off"] by simp
    also have "\<dots> = patch @ appendRefData [] off len"
      using True by (subst (2) appendRefData.simps) simp
    finally show ?thesis .
  next
    case False
    then show ?thesis
      by (subst appendRefData.simps, subst (2) appendRefData.simps) (simp add: appendRefTail_append [of patch])
  qed
qed





subsection \<open>A match above 64 KiB\<close>

lemma PutUvarint_65552: "PutUvarint 65552 = [0x90, 0x80, 0x04]"
  by (simp add: PutUvarint.simps)

lemma PutUvarint_17: "PutUvarint 17 = [0x11]"
  by (simp add: PutUvarint.simps)

lemma length_big_data1: "length big_data1 = 65552"
  by (simp add: big_data1_def chunk16_def)

lemma appendRefData_64k_16: "appendRefData [] 0x10000 16 = [0x92, 0x01, 0x10]"
  by (simp add: appendRefData.simps appendRefTail_def refFields_def putByte_def)

lemma drop_big_data1: "n \<le> 65536 \<Longrightarrow> drop n big_data1 = replicate (65536 - n) 0 @ chunk16"
  by (simp add: big_data1_def)

lemma copyField_numeral:
  "copyField opc k (numeral n) bs =
     (if opc AND push_bit k 1 \<noteq> 0
      then (case bs of
              [] \<Rightarrow> None
            | b # bs' \<Rightarrow>
                (case copyField opc (k + 1) (pred_numeral n) bs' of
                   None \<Rightarrow> None
                 | Some (v, rest) \<Rightarrow> Some (unat b + 0x100 * v, rest)))
      else (case copyField opc (k + 1) (pred_numeral n) bs of
              None \<Rightarrow> None
            | Some (v, rest) \<Rightarrow> Some (0x100 * v, rest)))"
  using copyField.simps(2) [of opc k "pred_numeral n" bs] by (simp only: numeral_eq_Suc)

lemma Patch_big:
  "Patch big_data1 ([0x90, 0x80, 0x04, 0x11, 0x92, 0x01, 0x10, 0x01, 17]) = Inr (replicate 16 0 @ [17])"
  apply (simp add: Patch_def length_big_data1 Patch_loop.simps drop_big_data1 copyField_numeral)
  done

lemma zero_chunk_big_data1:
  "k * 16 + 16 \<le> 65536 \<Longrightarrow> take 16 (drop (k * 16) big_data1) = replicate 16 0"
  by (simp add: drop_big_data1)

lemma hashChunks_loop_zeros:
  assumes "W r = 16"
  shows "0 < k \<Longrightarrow> k \<le> 4095 \<Longrightarrow>
         hashChunks_loop r big_data1 k m = m(hashRabin r (replicate 16 0) \<mapsto> 16)"
proof (induction k arbitrary: m)
  case 0
  then show ?case by simp
next
  case (Suc k)
  have chunk: "take 16 (drop (Suc k * 16) big_data1) = replicate 16 0"
    using Suc.prems by (intro zero_chunk_big_data1) simp
  show ?case
  proof (cases "k = 0")
    case True
    then show ?thesis using chunk assms by simp
  next
    case False
    then have "hashChunks_loop r big_data1 k (m(hashRabin r (replicate 16 0) \<mapsto> Suc k * 16)) =
               (m(hashRabin r (replicate 16 0) \<mapsto> Suc k * 16))(hashRabin r (replicate 16 0) \<mapsto> 16)"
      using Suc.prems by (intro Suc.IH) simp_all
    then show ?thesis using chunk assms by simp
  qed
qed

lemma hashChunks_big_data1:
  assumes "W r = 16"
  shows "hashChunks r big_data1 =
         [hashRabin r chunk16 \<mapsto> 65536, hashRabin r (replicate 16 0) \<mapsto> 16]"
proof -
  have n: "length big_data1 div W r - 1 = Suc 4095"
    using assms by (simp add: length_big_data1)
  have last: "take 16 (drop (Suc 4095 * 16) big_data1) = chunk16"
    by (simp add: drop_big_data1 chunk16_def)
  have "hashChunks r big_data1 =
        hashChunks_loop r big_data1 4095 (Map.empty(hashRabin r chunk16 \<mapsto> 65536))"
    unfolding hashChunks_def n hashChunks_loop.simps using last assms by simp
  also have "\<dots> = (Map.empty(hashRabin r chunk16 \<mapsto> 65536))(hashRabin r (replicate 16 0) \<mapsto> 16)"
    by (rule hashChunks_loop_zeros [OF assms]) simp_all
  finally show ?thesis .
qed

lemma Diff_loop_prime:
  assumes "W r = 16" and "16 \<le> length data2"
  shows "i \<le> 16 \<Longrightarrow>
         Diff_loop r hashes data1 data2 i p lastmatch patch =
         Diff_loop r hashes data1 data2 16 (foldl (roll r) p (take (16 - i) (drop i data2))) lastmatch patch"
proof (induction "16 - i" arbitrary: i p)
  case 0
  then show ?case by simp
next
  case (Suc n)
  then have i: "i < 16" by simp
  have d1: "drop i data2 = data2 ! i # drop (Suc i) data2"
    using i assms(2) Cons_nth_drop_Suc [of i data2] by simp
  have d2: "16 - i = Suc (16 - Suc i)"
    using i by simp
  have d: "take (16 - i) (drop i data2) = data2 ! i # take (16 - Suc i) (drop (Suc i) data2)"
    by (subst d1, subst d2) (simp only: take_Suc_Cons)
  have "Diff_loop r hashes data1 data2 i p lastmatch patch =
        Diff_loop r hashes data1 data2 (Suc i) (roll r p (data2 ! i)) lastmatch patch"
    using i assms by (subst Diff_loop.simps) (simp add: Let_def)
  also have "\<dots> = Diff_loop r hashes data1 data2 16
               (foldl (roll r) (roll r p (data2 ! i)) (take (16 - Suc i) (drop (Suc i) data2))) lastmatch patch"
    using Suc by (intro Suc.hyps(1)) simp_all
  finally show ?case using d by simp
qed

lemma extendLeft_stop:
  "\<not> int testi > lastmatch + 1 \<Longrightarrow> extendLeft data1 data2 lastmatch refi testi = (refi, testi)"
  by (cases refi) simp_all

lemma Diff_big:
  assumes W: "W r = 16"
    and inv: "foldl (roll r) 0 chunk16 = hashRabin r chunk16"
    and nocoll: "hashRabin r chunk16 \<noteq> hashRabin r (replicate 16 0)"
  shows "Diff r big_data1 big_data2 = [0x90, 0x80, 0x04, 0x11, 0x92, 0x01, 0x10, 0x01, 17]"
proof -
  let ?hdr = "[0x90, 0x80, 0x04, 0x11] :: byte list"
  let ?hashes = "[hashRabin r chunk16 \<mapsto> 65536, hashRabin r (replicate 16 0) \<mapsto> 16]"
  let ?p = "hashRabin r chunk16"
  have len2: "length big_data2 = 17" by (simp add: big_data2_def chunk16_def)
  have pre: "take 16 big_data2 = chunk16" by (simp add: big_data2_def chunk16_def)
  have prime: "Diff_loop r ?hashes big_data1 big_data2 0 0 (-1) ?hdr =
               Diff_loop r ?hashes big_data1 big_data2 16 ?p (-1) ?hdr"
    using Diff_loop_prime [OF W, of big_data2 0 ?hashes big_data1 0 "-1" ?hdr] len2 pre inv
    by simp
  have look: "?hashes ?p = Some 65536" using nocoll by simp
  have eq1: "take 16 (drop 65536 big_data1) = chunk16"
    by (simp add: drop_big_data1 chunk16_def)
  have L: "extendLeft big_data1 big_data2 (-1) 65536 0 = (65536, 0)"
    by (rule extendLeft_stop) simp
  have R: "extendRight big_data1 big_data2 65552 16 = (65552, 16)"
    by (subst extendRight.simps) (simp add: length_big_data1)
  have inl: "appendInlineData ?hdr [] = ?hdr"
    by (subst appendInlineData.simps) simp
  have ref: "appendRefData ?hdr 65536 16 = ?hdr @ [0x92, 0x01, 0x10]"
    by (subst appendRefData_append) (simp add: appendRefData_64k_16)
  have sk: "drop 16 big_data2 = [17]" by (simp add: big_data2_def chunk16_def)
  have step: "Diff_loop r ?hashes big_data1 big_data2 16 ?p (-1) ?hdr = (15, ?hdr @ [0x92, 0x01, 0x10])"
    apply (subst Diff_loop.simps)
    apply (simp add: W len2 look eq1 pre L R inl ref sk Let_def del: fun_upd_apply)
    done
  have fin: "appendInlineData [0x90, 0x80, 0x04, 0x11, 0x92, 0x01, 0x10] [17] =
             [0x90, 0x80, 0x04, 0x11, 0x92, 0x01, 0x10, 0x01, 17]"
    by (subst appendInlineData.simps) simp
  show ?thesis
    unfolding Diff_def
    by (simp add: hashChunks_big_data1 [OF W] length_big_data1 len2 PutUvarint_65552 PutUvarint_17
        prime step sk fin del: fun_upd_apply)
qed

text \<open>
  Claim C1 at an input with a match above 64 KiB. \<open>appendRefData\<close> sets bit 2 of the
  opcode for the offset bytes 1, 2 and 3 alike, so the offset \<open>0x10000\<close> of the match is
  encoded as \<open>0x92 0x01 0x10\<close> and read back as the offset \<open>0x100\<close>: the patch
  interpreter returns 16 zero bytes where the target has the chunk. The statement holds
  for every fingerprint with chunks of 16 bytes whose rolling hash of the chunk is its
  \<open>hashRabin\<close> (the invariant the source states in \<open>Diff\<close>) and which tells the chunk
  from 16 zero bytes.
\<close>

theorem Diff_roundtrip_fails_above_64k:
  assumes "W r = 16"
    and "foldl (roll r) 0 chunk16 = hashRabin r chunk16"
    and "hashRabin r chunk16 \<noteq> hashRabin r (replicate 16 0)"
  shows "Patch big_data1 (Diff r big_data1 big_data2) = Inr (replicate 16 0 @ [17]) \<and>
         replicate 16 0 @ [17] \<noteq> big_data2"
proof -
  have "(replicate 16 0 @ [17]) ! 0 = (0::byte)" by (simp add: nth_append)
  moreover have "big_data2 ! 0 = 1" by (simp add: big_data2_def chunk16_def)
  ultimately have "replicate 16 0 @ [17] \<noteq> big_data2" by (metis zero_neq_one)
  then show ?thesis using Diff_big [OF assms] Patch_big by simp
qed

lemma hz: "foldl (\<lambda>p b. push_bit 8 p XOR ucast b) (0 :: 32 word) (replicate n (0 :: byte)) = 0"
  by (induction n) simp_all

lemma hc: "foldl (\<lambda>p b. push_bit 8 p XOR ucast b) (0 :: 32 word) chunk16 = 0x0D0E0F10"
  by (simp add: chunk16_def)

theorem Diff_roundtrip_fails_above_64k_witness:
  "W rabin_x32 = 16 \<and>
   foldl (roll rabin_x32) 0 chunk16 = hashRabin rabin_x32 chunk16 \<and>
   hashRabin rabin_x32 chunk16 \<noteq> hashRabin rabin_x32 (replicate 16 0) \<and>
   Patch big_data1 (Diff rabin_x32 big_data1 big_data2) = Inr (replicate 16 0 @ [17]) \<and>
   replicate 16 0 @ [17] \<noteq> big_data2"
proof -
  have w: "W rabin_x32 = 16" by (simp add: rabin_x32_def)
  have r: "roll rabin_x32 = (\<lambda>p b. push_bit 8 p XOR ucast b)"
    by (simp add: roll_def rabin_x32_def fun_eq_iff)
  have h: "hashRabin rabin_x32 = foldl (\<lambda>p b. push_bit 8 p XOR ucast b) 0"
    by (simp add: rabin_x32_def)
  have inv: "foldl (roll rabin_x32) 0 chunk16 = hashRabin rabin_x32 chunk16"
    by (simp only: r h)
  have nocoll: "hashRabin rabin_x32 chunk16 \<noteq> hashRabin rabin_x32 (replicate 16 0)"
    by (simp only: h hz hc) simp
  show ?thesis
    using Diff_roundtrip_fails_above_64k [OF w inv nocoll] w inv nocoll by blast
qed

section \<open>Looking a hash up in the index\<close>

lemma length_concat_replicate: "length (concat (replicate n xs)) = n * length xs"
  by (induction n) simp_all

lemma length_idx2_fanout: "length idx2_fanout = 1024"
  by (simp add: idx2_fanout_def length_concat_replicate)

lemma length_idx2_tables: "length idx2_tables = 104"
  by (simp add: idx2_tables_def)

lemma drop_add_append: "n = length xs \<Longrightarrow> drop (n + k) (xs @ ys) = drop k ys"
  by simp

lemma idx2_drop: "drop (1032 + k) idx2 = drop k idx2_tables"
proof -
  have "1032 = length ([0xFF, 0x74, 0x4F, 0x63, 0, 0, 0, 2] @ idx2_fanout)"
    by (simp add: length_idx2_fanout)
  then have "drop (1032 + k) (([0xFF, 0x74, 0x4F, 0x63, 0, 0, 0, 2] @ idx2_fanout) @ idx2_tables) =
             drop k idx2_tables"
    by (rule drop_add_append)
  then show ?thesis by (simp add: idx2_def)
qed

lemma length_idx2: "length idx2 = 1136"
  by (simp add: idx2_def length_idx2_fanout length_idx2_tables)

lemma idx2_ReadAt:
  "0 \<le> k \<Longrightarrow> k < 104 \<Longrightarrow>
   idx_ReadAt pk2 n (1032 + k) =
     ((take n (drop (nat k) idx2_tables), if length (take n (drop (nat k) idx2_tables)) < n then Some EOF else None), pk2)"
  using idx2_drop [of "nat k"]
  by (simp add: idx_ReadAt_def ReadAt_def pk2_def length_idx2 Let_def nat_add_distrib)

lemma fanout_pk2: "i < 256 \<Longrightarrow> idxFanout pk2 ! i = 2"
  by (simp add: pk2_def)

lemma idx2_ReadAt_tables:
  "1032 \<le> off \<Longrightarrow> off < 1136 \<Longrightarrow>
   idx_ReadAt pk2 n off =
     ((take n (drop (nat (off - 1032)) idx2_tables),
       if length (take n (drop (nat (off - 1032)) idx2_tables)) < n then Some EOF else None), pk2)"
  using idx2_ReadAt [of "off - 1032" n] by simp

lemma hash_01_head: "hash_01 ! 0 = 0"
  by (simp add: hash_01_def nth_append)

lemma hash_02_head: "hash_02 ! 0 = 0"
  by (simp add: hash_02_def nth_append)

lemma Compare_refl: "Compare xs xs = 0"
  by (induction xs) simp_all

lemma Compare_zeros_append:
  "Compare (replicate n 0 @ xs) (replicate n 0 @ ys) = Compare xs ys"
  by (induction n) simp_all

lemma hashes_at_20: "take 20 (drop 20 idx2_tables) = replicate 19 0 @ [2]"
  by (simp add: idx2_tables_def)

lemma BinarySearch_01: "BinarySearch hash_01 0 2 pk2 = (Inr (0, 0), pk2)"
  apply (subst BinarySearch.simps)
  apply (simp add: idxHeaderSize_def idx2_ReadAt_tables hashes_at_20 fill_def hash_01_def Compare_zeros_append Let_def)
  apply (subst BinarySearch.simps)
  apply simp
  done

lemma BinarySearch_2_01: "BinarySearch_2 hash_01 0 2 pk2 = (Inr (0, 1), pk2)"
  apply (subst BinarySearch_2.simps)
  apply (simp add: idxHeaderSize_def idx2_ReadAt_tables hashes_at_20 fill_def hash_01_def Compare_zeros_append Let_def)
  apply (subst BinarySearch_2.simps)
  apply simp
  done

lemma BinarySearch_02: "BinarySearch hash_02 0 2 pk2 = (Inr (1, 1), pk2)"
  apply (subst BinarySearch.simps)
  apply (simp add: idxHeaderSize_def idx2_ReadAt_tables hashes_at_20 fill_def hash_02_def Compare_refl Let_def)
  done

lemma BinarySearch_2_02: "BinarySearch_2 hash_02 0 2 pk2 = (Inr (1, 1), pk2)"
  apply (subst BinarySearch_2.simps)
  apply (simp add: idxHeaderSize_def idx2_ReadAt_tables hashes_at_20 fill_def hash_02_def Compare_refl Let_def)
  done

lemma replicate_8: "replicate 8 x = [x, x, x, x, x, x, x, x]"
  by (simp add: numeral_eq_Suc)

lemma findObject_offset_0: "findObject_offset 0 pk2 = ((12, None), pk2)"
  apply (simp add: findObject_offset_def fanout_pk2 idxHeaderSize_def idx2_ReadAt_tables Let_def)
  apply (simp add: idx2_tables_def fill_def be_word_def word_sle_eq replicate_8)
  done

lemma findObject_offset_1: "findObject_offset 1 pk2 = ((0x1111111111111111, None), pk2)"
  apply (simp add: findObject_offset_def fanout_pk2 idxHeaderSize_def idx2_ReadAt_tables Let_def)
  apply (simp add: idx2_tables_def fill_def be_word_def word_sle_eq replicate_8)
  done

lemma Objects_pk2: "Objects maxAlloc pk2 = (Return ([replicate 20 0, hash_02], None), pk2)"
proof -
  have r: "idx_ReadAt pk2 40 1032 = ((take 40 idx2_tables, None), pk2)"
    using idx2_ReadAt_tables [of 1032 40] by (simp add: length_idx2_tables)
  have up: "[0..<2] = [0, 1]" by (simp add: upt_rec)
  have t: "take 40 idx2_tables = replicate 20 0 @ replicate 19 0 @ [2]"
    by (simp add: idx2_tables_def)
  show ?thesis
    by (simp add: Objects_def make_fails_def maxAlloc_def fanout_pk2 idxHeaderSize_def r up t
        hash_02_def)
qed

text \<open>
  Claim C2 at a hash that is not in the index. The index \<open>idx2\<close> holds the hash of 20
  zero bytes and \<open>hash_02\<close>; for \<open>hash_01\<close>, which lies between the two, both versions of
  \<open>findObject\<close> return the pack offset 12 of the first object and no error: the hash at
  the final position is never compared with the hash looked up.
\<close>

theorem findObject_absent_hash_returns_offset:
  "Objects maxAlloc pk2 = (Return ([replicate 20 0, hash_02], None), pk2) \<and>
   hash_01 \<noteq> replicate 20 0 \<and> hash_01 \<noteq> hash_02 \<and>
   findObject hash_01 pk2 = ((12, None), pk2) \<and>
   findObject_2 hash_01 pk2 = ((12, None), pk2)"
proof -
  have a: "hash_01 \<noteq> replicate 20 0"
  proof
    assume "hash_01 = replicate 20 0"
    then have "hash_01 ! 19 = replicate 20 (0::byte) ! 19" by simp
    then show False by (simp add: hash_01_def nth_append)
  qed
  have b: "hash_01 \<noteq> hash_02"
    by (simp add: hash_01_def hash_02_def)
  have r0: "idx_ReadAt pk2 20 1032 = ((take 20 idx2_tables, None), pk2)"
    using idx2_ReadAt_tables [of 1032 20] by (simp add: length_idx2_tables)
  have r2: "idx_ReadAt pk2 20 1072 = ((take 20 (drop 40 idx2_tables), None), pk2)"
    using idx2_ReadAt_tables [of 1072 20] by (simp add: length_idx2_tables)
  have f1: "findObject hash_01 pk2 = ((12, None), pk2)"
    by (simp add: findObject_def hash_01_head fanout_pk2 idxHeaderSize_def r0 r2
        BinarySearch_01 findObject_offset_0)
  have f2: "findObject_2 hash_01 pk2 = ((12, None), pk2)"
    by (simp add: findObject_2_def hash_01_head fanout_pk2 idxHeaderSize_def r0 r2
        BinarySearch_2_01 findObject_offset_0)
  show ?thesis using Objects_pk2 a b f1 f2 by simp
qed

text \<open>
  Claim C3 at an entry of the 64-bit table. The second object of \<open>idx2\<close> has the 32-bit
  entry \<open>0x80000000\<close>, that is entry 0 of the 64-bit table, which holds \<open>2^32\<close>. Both
  versions of \<open>findObject\<close> read the 64-bit table at the position of the object in the
  hash table, here 1, which lies behind the table, and return the first eight bytes of
  the pack checksum as the offset.
\<close>

theorem findObject_reads_off64_at_object_position:
  "(be_word (take 4 (drop 52 idx2_tables)) :: 32 word) = 0x80000000 \<and>
   (be_word (take 8 (drop 56 idx2_tables)) :: 64 word) = 0x100000000 \<and>
   findObject hash_02 pk2 = ((0x1111111111111111, None), pk2) \<and>
   findObject_2 hash_02 pk2 = ((0x1111111111111111, None), pk2)"
proof -
  have e32: "(be_word (take 4 (drop 52 idx2_tables)) :: 32 word) = 0x80000000"
    by (simp add: idx2_tables_def be_word_def)
  have e64: "(be_word (take 8 (drop 56 idx2_tables)) :: 64 word) = 0x100000000"
    by (simp add: idx2_tables_def be_word_def)
  have r0: "idx_ReadAt pk2 20 1032 = ((take 20 idx2_tables, None), pk2)"
    using idx2_ReadAt_tables [of 1032 20] by (simp add: length_idx2_tables)
  have r2: "idx_ReadAt pk2 20 1072 = ((take 20 (drop 40 idx2_tables), None), pk2)"
    using idx2_ReadAt_tables [of 1072 20] by (simp add: length_idx2_tables)
  have f1: "findObject hash_02 pk2 = ((0x1111111111111111, None), pk2)"
    by (simp add: findObject_def hash_02_head fanout_pk2 idxHeaderSize_def r0 r2
        BinarySearch_02 findObject_offset_1)
  have f2: "findObject_2 hash_02 pk2 = ((0x1111111111111111, None), pk2)"
    by (simp add: findObject_2_def hash_02_head fanout_pk2 idxHeaderSize_def r0 r2
        BinarySearch_2_02 findObject_offset_1)
  show ?thesis using e32 e64 f1 f2 by simp
qed

section \<open>Extraction from a pack\<close>

lemma ReadAt_reader: "snd (ReadAt s n off) = s"
  by (simp add: ReadAt_def Let_def)

lemma idx_ReadAt_reader: "snd (idx_ReadAt pk n off) = pk"
  using ReadAt_reader [of "idx pk" n off]
  by (cases "ReadAt (idx pk) n off") (simp add: idx_ReadAt_def)

lemma pack_ReadAt_reader: "snd (pack_ReadAt pk n off) = pk"
  using ReadAt_reader [of "pack pk" n off]
  by (cases "ReadAt (pack pk) n off") (simp add: pack_ReadAt_def)

lemma readCompressed_reader: "snd (readCompressed zl s offset n) = s"
  by (simp add: readCompressed_def Let_def split: sum.splits prod.splits)

lemma pack_readCompressed_reader: "snd (pack_readCompressed zl pk offset n) = pk"
  using readCompressed_reader [of zl "pack pk" offset n]
  by (cases "readCompressed zl (pack pk) offset n") (simp add: pack_readCompressed_def)

lemma readVaroffset_reader: "snd (readVaroffset pk offset) = pk"
  using pack_ReadAt_reader [of pk 16 offset]
  by (cases "pack_ReadAt pk 16 offset") (auto simp: readVaroffset_def Let_def split: prod.splits)

lemma findObject_offset_reader: "snd (findObject_offset m pk) = pk"
proof -
  obtain r1 where r1: "idx_ReadAt pk 4 (idxHeaderSize + 24 * uint (idxFanout pk ! 0xFF) + 4 * m) = (r1, pk)"
    using idx_ReadAt_reader by (metis prod.collapse)
  obtain r2 where r2: "idx_ReadAt pk 8 (idxHeaderSize + 28 * uint (idxFanout pk ! 0xFF) + 8 * m) = (r2, pk)"
    using idx_ReadAt_reader by (metis prod.collapse)
  show ?thesis
    by (cases r1; cases r2) (simp add: findObject_offset_def Let_def r1 r2)
qed

lemma BinarySearch_reader: "snd (BinarySearch hash lo hi pk) = pk"
proof (induction hash lo hi pk rule: BinarySearch.induct)
  case (1 hash lo hi pk)
  obtain bs err where r: "idx_ReadAt pk 20 (idxHeaderSize + (lo + hi) div 2 * 20) = ((bs, err), pk)"
    using idx_ReadAt_reader by (metis prod.collapse)
  show ?case
  proof (cases "lo < hi")
    case False
    then show ?thesis by (subst BinarySearch.simps) simp
  next
    case True
    show ?thesis
    proof (cases err)
      case (Some e)
      then show ?thesis using True r by (subst BinarySearch.simps) (simp add: Let_def)
    next
      case None
      then show ?thesis
        using True r "1.IH"(1) [OF True refl refl r [symmetric] refl None refl]
          "1.IH"(2) [OF True refl refl r [symmetric] refl None refl]
        by (subst BinarySearch.simps) (simp add: Let_def)
    qed
  qed
qed


lemma BinarySearch_2_reader: "snd (BinarySearch_2 hash lo hi pk) = pk"
proof (induction hash lo hi pk rule: BinarySearch_2.induct)
  case (1 hash lo hi pk)
  obtain bs err where r: "idx_ReadAt pk 20 (idxHeaderSize + (lo + hi) div 2 * 20) = ((bs, err), pk)"
    using idx_ReadAt_reader by (metis prod.collapse)
  show ?case
  proof (cases "hi - lo \<ge> 2")
    case False
    then show ?thesis by (subst BinarySearch_2.simps) simp
  next
    case True
    show ?thesis
    proof (cases err)
      case (Some e)
      then show ?thesis using True r by (subst BinarySearch_2.simps) (simp add: Let_def)
    next
      case None
      then show ?thesis
        using True r "1.IH"(1) [OF True refl refl r [symmetric] refl None refl]
          "1.IH"(2) [OF True refl refl r [symmetric] refl None refl]
        by (subst BinarySearch_2.simps) (simp add: Let_def)
    qed
  qed
qed

lemma findObject_reader: "snd (findObject hash pk) = pk"
proof -
  define hi where "hi = uint (idxFanout pk ! unat (hash ! 0))"
  define lo where "lo = (if hash ! 0 > 0 then uint (idxFanout pk ! unat (hash ! 0 - 1)) else 0)"
  obtain r1 where r1: "idx_ReadAt pk 20 (idxHeaderSize + lo * 20) = (r1, pk)"
    using idx_ReadAt_reader by (metis prod.collapse)
  obtain r2 where r2: "idx_ReadAt pk 20 (idxHeaderSize + hi * 20) = (r2, pk)"
    using idx_ReadAt_reader by (metis prod.collapse)
  obtain r3 where r3: "BinarySearch hash lo hi pk = (r3, pk)"
    using BinarySearch_reader by (metis prod.collapse)
  show ?thesis
    unfolding findObject_def Let_def
    unfolding hi_def [symmetric] lo_def [symmetric]
    using findObject_offset_reader
    by (cases r1; cases r2; cases r3) (auto simp: r1 r2 r3 split: prod.splits)
qed

lemma ReadAt_error: "snd (fst (ReadAt s n off)) = None \<or> snd (fst (ReadAt s n off)) = Some EOF"
  by (simp add: ReadAt_def Let_def)

lemma pack_ReadAt_cases:
  obtains bs where "pack_ReadAt pk n off = ((bs, None), pk)"
  | bs where "pack_ReadAt pk n off = ((bs, Some EOF), pk)"
proof -
  obtain bs e where r: "ReadAt (pack pk) n off = ((bs, e), pack pk)"
    using ReadAt_reader by (metis prod.collapse)
  then have "e = None \<or> e = Some EOF"
    using ReadAt_error [of "pack pk" n off] by simp
  moreover have "pack_ReadAt pk n off = ((bs, e), pk)"
    using r by (simp add: pack_ReadAt_def)
  ultimately show thesis using that by blast
qed

lemma entry_reads:
  obtains bs e1 varint n objsize objtype parent e2 d1 e3 d2 e4 boff e5 parentOff n2 e6 d3 e7
  where "pack_ReadAt pk 16 (sint off) = ((bs, e1), pk)"
    and "(if e1 = Some EOF \<or> e1 = Some ErrUnexpectedEOF then None else e1) = None"
    and "Uvarint (fill (replicate 16 0) bs) = (varint, n)"
    and "nat (sint (push_bit 4 (drop_bit 7 varint) OR (varint AND 0xF) :: 64 word)) = objsize"
    and "unat (drop_bit 4 varint AND 7) = objtype"
    and "pack_ReadAt pk 20 (sint (off + of_int n)) = ((parent, e2), pk)"
    and "pack_readCompressed zl pk (sint (off + of_int n)) objsize = ((d1, e3), pk)"
    and "pack_readCompressed zl pk (sint (off + of_int n + 20)) objsize = ((d2, e4), pk)"
    and "findObject parent pk = ((boff, e5), pk)"
    and "readVaroffset pk (sint (off + of_int n)) = ((parentOff, n2, e6), pk)"
    and "pack_readCompressed zl pk (sint (off + (of_int n + of_int n2))) objsize = ((d3, e7), pk)"
proof -
  obtain bs e1 where R16: "pack_ReadAt pk 16 (sint off) = ((bs, e1), pk)"
    and e1: "e1 = None \<or> e1 = Some EOF"
    by (rule pack_ReadAt_cases [of pk 16 "sint off"]) auto
  have e1': "(if e1 = Some EOF \<or> e1 = Some ErrUnexpectedEOF then None else e1) = None"
    using e1 by auto
  obtain varint n where U: "Uvarint (fill (replicate 16 0) bs) = (varint, n)"
    by (cases "Uvarint (fill (replicate 16 0) bs)")
  define objsize where "objsize = nat (sint (push_bit 4 (drop_bit 7 varint) OR (varint AND 0xF) :: 64 word))"
  define objtype where "objtype = unat (drop_bit 4 varint AND 7)"
  obtain parent e2 where Rpar: "pack_ReadAt pk 20 (sint (off + of_int n)) = ((parent, e2), pk)"
    using pack_ReadAt_reader by (metis prod.collapse)
  obtain d1 e3 where Rc1: "pack_readCompressed zl pk (sint (off + of_int n)) objsize = ((d1, e3), pk)"
    using pack_readCompressed_reader by (metis prod.collapse)
  obtain d2 e4 where Rc2: "pack_readCompressed zl pk (sint (off + of_int n + 20)) objsize = ((d2, e4), pk)"
    using pack_readCompressed_reader by (metis prod.collapse)
  obtain boff e5 where Rf: "findObject parent pk = ((boff, e5), pk)"
    using findObject_reader by (metis prod.collapse)
  obtain parentOff n2 e6 where Rv: "readVaroffset pk (sint (off + of_int n)) = ((parentOff, n2, e6), pk)"
    using readVaroffset_reader by (metis prod.collapse)
  obtain d3 e7 where Rc3: "pack_readCompressed zl pk (sint (off + (of_int n + of_int n2))) objsize = ((d3, e7), pk)"
    using pack_readCompressed_reader by (metis prod.collapse)
  show thesis
    using that [OF R16 e1' U objsize_def [symmetric] objtype_def [symmetric] Rpar Rc1 Rc2 Rf Rv Rc3] .
qed

lemma pk_types:
  "pkCommit \<noteq> pkRefDelta" "pkTree \<noteq> pkRefDelta" "pkBlob \<noteq> pkRefDelta" "pkTag \<noteq> pkRefDelta"
  "pkCommit \<noteq> pkOfsDelta" "pkTree \<noteq> pkOfsDelta" "pkBlob \<noteq> pkOfsDelta" "pkTag \<noteq> pkOfsDelta"
  "pkOfsDelta \<noteq> pkRefDelta"
  by (simp_all add: pkCommit_def pkTree_def pkBlob_def pkTag_def pkOfsDelta_def pkRefDelta_def)

lemma kind_of_applyDelta: "kind_of (applyDelta r patch) = kind_of r"
proof (cases r)
  case (Return x)
  obtain ty dat err where "x = (ty, dat, err)" by (cases x)
  then show ?thesis using Return by (simp split: sum.splits)
next
  case (Panic m)
  then show ?thesis by simp
qed

lemma extractAt_step:
  "(entry_step lim pk off = Ends \<longrightarrow> (\<exists>r. extractAt zl lim off pk = Some (Return r, pk))) \<and>
   (entry_step lim pk off = Fails \<longrightarrow> (\<exists>m. extractAt zl lim off pk = Some (Panic m, pk))) \<and>
   (\<forall>b. entry_step lim pk off = Base b \<longrightarrow>
      (\<exists>patch. extractAt zl lim off pk =
         Option.bind (extractAt zl lim b pk) (\<lambda>(base, pk). Some (applyDelta base patch, pk))))"
proof -
  obtain bs e1 varint n objsize objtype parent e2 d1 e3 d2 e4 boff e5 parentOff n2 e6 d3 e7
    where defs: "pack_ReadAt pk 16 (sint off) = ((bs, e1), pk)"
      "(if e1 = Some EOF \<or> e1 = Some ErrUnexpectedEOF then None else e1) = None"
      "Uvarint (fill (replicate 16 0) bs) = (varint, n)"
      "nat (sint (push_bit 4 (drop_bit 7 varint) OR (varint AND 0xF) :: 64 word)) = objsize"
      "unat (drop_bit 4 varint AND 7) = objtype"
      "pack_ReadAt pk 20 (sint (off + of_int n)) = ((parent, e2), pk)"
      "pack_readCompressed zl pk (sint (off + of_int n)) objsize = ((d1, e3), pk)"
      "pack_readCompressed zl pk (sint (off + of_int n + 20)) objsize = ((d2, e4), pk)"
      "findObject parent pk = ((boff, e5), pk)"
      "readVaroffset pk (sint (off + of_int n)) = ((parentOff, n2, e6), pk)"
      "pack_readCompressed zl pk (sint (off + (of_int n + of_int n2))) objsize = ((d3, e7), pk)"
    by (rule entry_reads [of pk off zl])
  define mf where "mf = make_fails lim (sint (push_bit 4 (drop_bit 7 varint) OR (varint AND 0xF) :: 64 word))"
  note mf = mf_def [symmetric]
  have eb: "entry_step lim pk off =
     (if objtype = pkCommit \<or> objtype = pkTree \<or> objtype = pkBlob \<or> objtype = pkTag
      then (if mf then Fails else Ends)
      else if objtype = pkRefDelta then
        (if e2 \<noteq> None then Ends else if mf then Fails else if e5 \<noteq> None then Ends else Base boff)
      else if objtype = pkOfsDelta then
        (if e6 \<noteq> None then Ends else if mf then Fails else Base (off - parentOff))
      else Ends)"
    unfolding entry_step_def by (simp add: defs mf Let_def pk_types)
  have ex: "extractAt zl lim off pk =
     (if objtype = pkCommit \<or> objtype = pkTree \<or> objtype = pkBlob \<or> objtype = pkTag
      then (if mf then Some (Panic makeslice_panic, pk) else Some (Return (objtype, d1, e3), pk))
      else if objtype = pkRefDelta then
        (if e2 \<noteq> None then Some (Return (0, [], e2), pk)
         else if mf then Some (Panic makeslice_panic, pk)
         else if e5 \<noteq> None then Some (applyDelta (Return (0, [], e5)) (fill (replicate objsize 0) d2), pk)
         else Option.bind (extractAt zl lim boff pk)
                (\<lambda>(base, pk). Some (applyDelta base (fill (replicate objsize 0) d2), pk)))
      else if objtype = pkOfsDelta then
        (if e6 \<noteq> None then Some (Return (objtype, [], e6), pk)
         else if mf then Some (Panic makeslice_panic, pk)
         else Option.bind (extractAt zl lim (off - parentOff) pk)
                (\<lambda>(base, pk). Some (applyDelta base (fill (replicate objsize 0) d3), pk)))
      else Some (Return (0, [], Some errInvalidPackEntryType), pk))"
    by (subst extractAt.simps) (simp add: defs mf Let_def pk_types del: applyDelta.simps)
  note ts = pk_types pk_types [symmetric]
  consider (base) "objtype = pkCommit \<or> objtype = pkTree \<or> objtype = pkBlob \<or> objtype = pkTag"
    | (ref) "objtype = pkRefDelta" | (ofs) "objtype = pkOfsDelta"
    | (other) "\<not> (objtype = pkCommit \<or> objtype = pkTree \<or> objtype = pkBlob \<or> objtype = pkTag)"
        "objtype \<noteq> pkRefDelta" "objtype \<noteq> pkOfsDelta"
    by blast
  then show ?thesis
  proof cases
    case base
    show ?thesis
    proof (cases mf)
      case True
      have "entry_step lim pk off = Fails"
        unfolding eb by (simp only: base True if_True)
      moreover have "extractAt zl lim off pk = Some (Panic makeslice_panic, pk)"
        unfolding ex by (simp only: base True if_True)
      ultimately show ?thesis by simp
    next
      case False
      have "entry_step lim pk off = Ends"
        unfolding eb by (simp only: base False if_True if_False)
      moreover have "extractAt zl lim off pk = Some (Return (objtype, d1, e3), pk)"
        unfolding ex by (simp only: base False if_True if_False)
      ultimately show ?thesis by simp
    qed
  next
    case ref
    have eb': "entry_step lim pk off =
        (if e2 \<noteq> None then Ends else if mf then Fails else if e5 \<noteq> None then Ends else Base boff)"
      unfolding eb by (simp only: ref ts simp_thms if_True if_False)
    have ex': "extractAt zl lim off pk =
        (if e2 \<noteq> None then Some (Return (0, [], e2), pk)
         else if mf then Some (Panic makeslice_panic, pk)
         else if e5 \<noteq> None then Some (applyDelta (Return (0, [], e5)) (fill (replicate objsize 0) d2), pk)
         else Option.bind (extractAt zl lim boff pk)
                (\<lambda>(base, pk). Some (applyDelta base (fill (replicate objsize 0) d2), pk)))"
      unfolding ex by (simp only: ref ts simp_thms if_True if_False)
    consider (rd) "e2 \<noteq> None" | (pn) "e2 = None" "mf" | (lk) "e2 = None" "\<not> mf" "e5 \<noteq> None"
      | (go) "e2 = None" "\<not> mf" "e5 = None"
      by blast
    then show ?thesis
    proof cases
      case rd
      have "entry_step lim pk off = Ends" unfolding eb' using rd by simp
      moreover have "extractAt zl lim off pk = Some (Return (0, [], e2), pk)"
        unfolding ex' using rd by simp
      ultimately show ?thesis by simp
    next
      case pn
      have "entry_step lim pk off = Fails" unfolding eb' using pn by simp
      moreover have "extractAt zl lim off pk = Some (Panic makeslice_panic, pk)"
        unfolding ex' using pn by simp
      ultimately show ?thesis by simp
    next
      case lk
      have "entry_step lim pk off = Ends" unfolding eb' using lk by simp
      moreover have "extractAt zl lim off pk =
          Some (Return (0, fill (replicate objsize 0) d2, e5), pk)"
        unfolding ex' using lk by simp
      ultimately show ?thesis by simp
    next
      case go
      have s: "entry_step lim pk off = Base boff" unfolding eb' using go by simp
      have "extractAt zl lim off pk = Option.bind (extractAt zl lim boff pk)
                (\<lambda>(base, pk). Some (applyDelta base (fill (replicate objsize 0) d2), pk))"
        unfolding ex' using go by simp
      then have "\<exists>patch. extractAt zl lim off pk = Option.bind (extractAt zl lim boff pk)
                (\<lambda>(base, pk). Some (applyDelta base patch, pk))"
        by (rule exI)
      then show ?thesis by (simp add: s)
    qed
  next
    case ofs
    have eb': "entry_step lim pk off =
        (if e6 \<noteq> None then Ends else if mf then Fails else Base (off - parentOff))"
      unfolding eb by (simp only: ofs ts simp_thms if_True if_False)
    have ex': "extractAt zl lim off pk =
        (if e6 \<noteq> None then Some (Return (objtype, [], e6), pk)
         else if mf then Some (Panic makeslice_panic, pk)
         else Option.bind (extractAt zl lim (off - parentOff) pk)
                (\<lambda>(base, pk). Some (applyDelta base (fill (replicate objsize 0) d3), pk)))"
      unfolding ex by (simp only: ofs ts simp_thms if_True if_False)
    consider (rd) "e6 \<noteq> None" | (pn) "e6 = None" "mf" | (go) "e6 = None" "\<not> mf"
      by blast
    then show ?thesis
    proof cases
      case rd
      have "entry_step lim pk off = Ends" unfolding eb' using rd by simp
      moreover have "extractAt zl lim off pk = Some (Return (objtype, [], e6), pk)"
        unfolding ex' using rd by simp
      ultimately show ?thesis by simp
    next
      case pn
      have "entry_step lim pk off = Fails" unfolding eb' using pn by simp
      moreover have "extractAt zl lim off pk = Some (Panic makeslice_panic, pk)"
        unfolding ex' using pn by simp
      ultimately show ?thesis by simp
    next
      case go
      have s: "entry_step lim pk off = Base (off - parentOff)" unfolding eb' using go by simp
      have "extractAt zl lim off pk = Option.bind (extractAt zl lim (off - parentOff) pk)
                (\<lambda>(base, pk). Some (applyDelta base (fill (replicate objsize 0) d3), pk))"
        unfolding ex' using go by simp
      then have "\<exists>patch. extractAt zl lim off pk = Option.bind (extractAt zl lim (off - parentOff) pk)
                (\<lambda>(base, pk). Some (applyDelta base patch, pk))"
        by (rule exI)
      then show ?thesis by (simp add: s)
    qed
  next
    case other
    have "entry_step lim pk off = Ends"
      unfolding eb by (simp only: other if_False)
    moreover have "extractAt zl lim off pk = Some (Return (0, [], Some errInvalidPackEntryType), pk)"
      unfolding ex by (simp only: other if_False)
    ultimately show ?thesis by simp
  qed
qed

lemma chain_end_extractAt:
  "chain_end k lim pk off = Some e \<Longrightarrow>
   \<exists>r. extractAt zl lim off pk = Some (r, pk) \<and> kind_of r = e"
proof (induction k arbitrary: off)
  case 0
  then show ?case by simp
next
  case (Suc k)
  show ?case
  proof (cases "entry_step lim pk off")
    case Ends
    then have "e = Returns" using Suc.prems by simp
    moreover obtain r where "extractAt zl lim off pk = Some (Return r, pk)"
      using extractAt_step [of lim pk off zl] Ends by blast
    ultimately have "extractAt zl lim off pk = Some (Return r, pk) \<and> kind_of (Return r) = e"
      by simp
    then show ?thesis by (rule exI)
  next
    case Fails
    then have "e = Panics" using Suc.prems by simp
    moreover obtain m where "extractAt zl lim off pk = Some (Panic m, pk)"
      using extractAt_step [of lim pk off zl] Fails by blast
    ultimately have "extractAt zl lim off pk = Some (Panic m, pk) \<and> kind_of (Panic m :: (nat \<times> byte list \<times> error option) outcome) = e"
      by simp
    then show ?thesis by (rule exI)
  next
    case (Base b)
    then have "chain_end k lim pk b = Some e" using Suc.prems by simp
    then obtain r where r: "extractAt zl lim b pk = Some (r, pk)" "kind_of r = e"
      using Suc.IH by blast
    obtain patch where "extractAt zl lim off pk =
        Option.bind (extractAt zl lim b pk) (\<lambda>(base, pk). Some (applyDelta base patch, pk))"
      using extractAt_step [of lim pk off zl] Base by blast
    then have "extractAt zl lim off pk = Some (applyDelta r patch, pk) \<and>
        kind_of (applyDelta r patch) = e"
      using r by (simp add: kind_of_applyDelta)
    then show ?thesis by (rule exI)
  qed
qed

lemma extractAt_Some_chain:
  assumes "extractAt zl lim off pk = Some y"
  shows "\<exists>k e. chain_end k lim pk off = Some e"
proof (rule extractAt.raw_induct
    [where P = "\<lambda>zl lim off pk y. \<exists>k e. chain_end k lim pk off = Some e", OF _ assms],
    goal_cases)
  case (1 f zl lim off pk y)
  obtain bs e1 varint n objsize objtype parent e2 d1 e3 d2 e4 boff e5 parentOff n2 e6 d3 e7
    where defs: "pack_ReadAt pk 16 (sint off) = ((bs, e1), pk)"
      "(if e1 = Some EOF \<or> e1 = Some ErrUnexpectedEOF then None else e1) = None"
      "Uvarint (fill (replicate 16 0) bs) = (varint, n)"
      "nat (sint (push_bit 4 (drop_bit 7 varint) OR (varint AND 0xF) :: 64 word)) = objsize"
      "unat (drop_bit 4 varint AND 7) = objtype"
      "pack_ReadAt pk 20 (sint (off + of_int n)) = ((parent, e2), pk)"
      "pack_readCompressed zl pk (sint (off + of_int n)) objsize = ((d1, e3), pk)"
      "pack_readCompressed zl pk (sint (off + of_int n + 20)) objsize = ((d2, e4), pk)"
      "findObject parent pk = ((boff, e5), pk)"
      "readVaroffset pk (sint (off + of_int n)) = ((parentOff, n2, e6), pk)"
      "pack_readCompressed zl pk (sint (off + (of_int n + of_int n2))) objsize = ((d3, e7), pk)"
    by (rule entry_reads [of pk off zl])
  define mf where "mf = make_fails lim (sint (push_bit 4 (drop_bit 7 varint) OR (varint AND 0xF) :: 64 word))"
  note mf = mf_def [symmetric]
  have eb: "entry_step lim pk off =
     (if objtype = pkCommit \<or> objtype = pkTree \<or> objtype = pkBlob \<or> objtype = pkTag
      then (if mf then Fails else Ends)
      else if objtype = pkRefDelta then
        (if e2 \<noteq> None then Ends else if mf then Fails else if e5 \<noteq> None then Ends else Base boff)
      else if objtype = pkOfsDelta then
        (if e6 \<noteq> None then Ends else if mf then Fails else Base (off - parentOff))
      else Ends)"
    unfolding entry_step_def by (simp add: defs mf Let_def pk_types)
  show ?case
  proof (cases "entry_step lim pk off")
    case Ends
    then have "chain_end (Suc 0) lim pk off = Some Returns" by simp
    then show ?thesis by blast
  next
    case Fails
    then have "chain_end (Suc 0) lim pk off = Some Panics" by simp
    then show ?thesis by blast
  next
    case (Base b)
    have "\<exists>y'. f zl lim b pk = Some y'"
    proof (cases "objtype = pkRefDelta")
      case True
      then have "e2 = None \<and> \<not> mf \<and> e5 = None \<and> b = boff"
        using Base unfolding eb by (simp add: pk_types pk_types [symmetric] split: if_splits)
      then have c: "e2 = None" "\<not> mf" "e5 = None" "b = boff" by simp_all
      have "Option.bind (f zl lim b pk)
          (\<lambda>(base, pk). Some (applyDelta base (fill (replicate objsize 0) d2), pk)) = Some y"
        using 1(2)
        by (simp add: defs mf Let_def True c pk_types pk_types [symmetric] del: applyDelta.simps)
      then show ?thesis by (cases "f zl lim b pk") simp_all
    next
      case False
      then have "objtype = pkOfsDelta \<and> e6 = None \<and> \<not> mf \<and> b = off - parentOff"
        using Base unfolding eb by (simp split: if_splits)
      then have c: "objtype = pkOfsDelta" "e6 = None" "\<not> mf" "b = off - parentOff" by simp_all
      have "Option.bind (f zl lim b pk)
          (\<lambda>(base, pk). Some (applyDelta base (fill (replicate objsize 0) d3), pk)) = Some y"
        using 1(2)
        by (simp add: defs mf Let_def c pk_types pk_types [symmetric] del: applyDelta.simps)
      then show ?thesis by (cases "f zl lim b pk") simp_all
    qed
    then obtain k e where "chain_end k lim pk b = Some e"
      using 1(1) by blast
    then have "chain_end (Suc k) lim pk off = Some e"
      using Base by simp
    then show ?thesis by blast
  qed
qed

lemma extractAt_as_chain:
  assumes "extractAt zl lim off pk = Some (r, pk')"
  shows "pk' = pk \<and> (\<exists>k. chain_end k lim pk off = Some (kind_of r))"
proof -
  obtain k e where c: "chain_end k lim pk off = Some e"
    using extractAt_Some_chain [OF assms] by blast
  then obtain r' where "extractAt zl lim off pk = Some (r', pk)" "kind_of r' = e"
    using chain_end_extractAt by blast
  then have "pk' = pk" "kind_of r = e" using assms by simp_all
  then show ?thesis using c by blast
qed

lemma chain_end_unique:
  "chain_end k lim pk off = Some e \<Longrightarrow> chain_end k' lim pk off = Some e' \<Longrightarrow> e = e'"
proof (induction k arbitrary: off k')
  case 0
  then show ?case by simp
next
  case (Suc k)
  obtain j where k': "k' = Suc j" using Suc.prems(2) by (cases k') simp_all
  show ?case
  proof (cases "entry_step lim pk off")
    case (Base b)
    then have "chain_end k lim pk b = Some e" "chain_end j lim pk b = Some e'"
      using Suc.prems k' by simp_all
    then show ?thesis by (rule Suc.IH)
  qed (use Suc.prems k' in simp_all)
qed


lemma fill16: "length bs = 16 \<Longrightarrow> fill (replicate 16 0) bs = bs"
  by (simp add: fill_def)









text \<open>
  Claim C9. A call of \<open>extract\<close> that returns leaves the \<open>PackReader\<close> as it found it, so
  that a second call on it returns the same type, the same payload and the same error.
\<close>

theorem extract_twice_same_result:
  assumes "extract' zl lim h pk = Some (r, pk')"
  shows "pk' = pk \<and> extract' zl lim h pk' = Some (r, pk')"
proof -
  obtain off err where f: "findObject h pk = ((off, err), pk)"
    using findObject_reader by (metis prod.collapse)
  have "pk' = pk"
  proof (cases "err = None")
    case True
    then have "extractAt zl lim off pk = Some (r, pk')"
      using assms f by (simp add: extract'_def)
    then show ?thesis using extractAt_as_chain by blast
  next
    case False
    then show ?thesis using assms f by (auto simp: extract'_def)
  qed
  then show ?thesis using assms by simp
qed

lemma length_idx1_fanout: "length idx1_fanout = 1024"
  by (simp add: idx1_fanout_def length_concat_replicate)

lemma length_idx1_tables: "length idx1_tables = 68"
  by (simp add: idx1_tables_def hash_empty_blob_def)

lemma idx1_drop: "drop (1032 + k) idx1 = drop k idx1_tables"
proof -
  have "1032 = length ([0xFF, 0x74, 0x4F, 0x63, 0, 0, 0, 2] @ idx1_fanout)"
    by (simp add: length_idx1_fanout)
  then have "drop (1032 + k) (([0xFF, 0x74, 0x4F, 0x63, 0, 0, 0, 2] @ idx1_fanout) @ idx1_tables) =
             drop k idx1_tables"
    by (rule drop_add_append)
  then show ?thesis by (simp add: idx1_def)
qed

lemma length_idx1: "length idx1 = 1100"
  by (simp add: idx1_def length_idx1_fanout length_idx1_tables)

lemma idx1_ReadAt:
  "0 \<le> k \<Longrightarrow> k < 68 \<Longrightarrow>
   idx_ReadAt pk1 n (1032 + k) =
     ((take n (drop (nat k) idx1_tables), if length (take n (drop (nat k) idx1_tables)) < n then Some EOF else None), pk1)"
  using idx1_drop [of "nat k"]
  by (simp add: idx_ReadAt_def ReadAt_def pk1_def length_idx1 Let_def nat_add_distrib)

lemma idx1_ReadAt_tables:
  "1032 \<le> off \<Longrightarrow> off < 1100 \<Longrightarrow>
   idx_ReadAt pk1 n off =
     ((take n (drop (nat (off - 1032)) idx1_tables),
       if length (take n (drop (nat (off - 1032)) idx1_tables)) < n then Some EOF else None), pk1)"
  using idx1_ReadAt [of "off - 1032" n] by simp

lemma findObject_pk1: "findObject hash_empty_blob pk1 = ((12, None), pk1)"
proof -
  have h0: "hash_empty_blob ! 0 = 0xE6" by (simp add: hash_empty_blob_def)
  have len: "length hash_empty_blob = 20" by (simp add: hash_empty_blob_def)
  have fan: "idxFanout pk1 ! 230 = 1" "idxFanout pk1 ! 229 = 0" "idxFanout pk1 ! 255 = 1"
    by (simp_all add: pk1_def nth_append)
  have r0: "idx_ReadAt pk1 20 1032 = ((hash_empty_blob, None), pk1)"
    using idx1_ReadAt_tables [of 1032 20] by (simp add: idx1_tables_def hash_empty_blob_def)
  have r1: "idx_ReadAt pk1 20 1052 = ((take 20 (drop 20 idx1_tables), None), pk1)"
    using idx1_ReadAt_tables [of 1052 20] by (simp add: length_idx1_tables)
  have bsrch: "BinarySearch hash_empty_blob 0 1 pk1 = (Inr (0, 0), pk1)"
    by (subst BinarySearch.simps) (simp add: idxHeaderSize_def r0 fill_def Compare_refl len)
  have off: "findObject_offset 0 pk1 = ((12, None), pk1)"
    apply (simp add: findObject_offset_def fan idxHeaderSize_def idx1_ReadAt_tables Let_def)
    apply (simp add: idx1_tables_def hash_empty_blob_def fill_def be_word_def word_sle_eq)
    done
  show ?thesis
    by (simp add: findObject_def h0 fan idxHeaderSize_def r0 r1 bsrch off)
qed

lemma extractAt_pk1: "extractAt zlib_empty maxAlloc 12 pk1 = Some (Return (3, [], None), pk1)"
  by (subst extractAt.simps)
    (simp add: pack_ReadAt_def ReadAt_def pk1_def pack1_def fill_def Uvarint_def Let_def
      pkCommit_def pkTree_def pkBlob_def pkTag_def pack_readCompressed_def readCompressed_def
      zlib_empty_def make_fails_def maxAlloc_def)

theorem extract_twice_same_result_witness:
  "extract' zlib_empty maxAlloc hash_empty_blob pk1 = Some (Return (3, [], None), pk1) \<and>
   pk1 = pk1 \<and> extract' zlib_empty maxAlloc hash_empty_blob pk1 = Some (Return (3, [], None), pk1)"
proof -
  have e: "extract' zlib_empty maxAlloc hash_empty_blob pk1 = Some (Return (3, [], None), pk1)"
    by (simp add: extract'_def findObject_pk1 extractAt_pk1)
  show ?thesis
    using extract_twice_same_result [OF e] e by simp
qed

end
